theory Spec2Isabelle
  imports Main "HOL-Library.Stream"
begin

section \<open>The Royal Game of Ur: rules engine of \<open>ur_gui.py\<close>\<close>

text \<open>
  The class \<open>RoyalGameOfUr\<close> keeps \<open>positions[player][piece]\<close>, a list of two lists of
  Python integers (\<open>-1\<close> off-board, \<open>0..13\<close> on the track, \<open>14\<close> borne off), and the
  integer \<open>current_player\<close>. Players, piece indices and positions are Python integers, so
  they are \<open>int\<close> here; list subscripts follow Python (a negative subscript counts from the
  end, anything else out of range raises \<open>IndexError\<close>); every exception of the source is
  a value of \<open>error\<close>.
\<close>

subsection \<open>Python lists\<close>

datatype error = IndexError | KeyError | ValueError

definition norm_index :: "nat \<Rightarrow> int \<Rightarrow> error + nat" where
  "norm_index n i =
     (if 0 \<le> i \<and> i < int n then Inr (nat i)
      else if - int n \<le> i \<and> i < 0 then Inr (nat (int n + i))
      else Inl IndexError)"

definition py_get :: "'a list \<Rightarrow> int \<Rightarrow> error + 'a" where
  "py_get xs i = (case norm_index (length xs) i of Inl e \<Rightarrow> Inl e | Inr k \<Rightarrow> Inr (xs ! k))"

definition py_set :: "'a list \<Rightarrow> int \<Rightarrow> 'a \<Rightarrow> error + 'a list" where
  "py_set xs i v = (case norm_index (length xs) i of Inl e \<Rightarrow> Inl e | Inr k \<Rightarrow> Inr (xs[k := v]))"

text \<open>\<open>xs.index(v)\<close>: the first subscript holding \<open>v\<close>; \<open>None\<close> stands for \<open>ValueError\<close>.\<close>

fun index_of :: "'a list \<Rightarrow> 'a \<Rightarrow> nat option" where
  "index_of [] v = None"
| "index_of (x # xs) v = (if x = v then Some 0 else map_option Suc (index_of xs v))"

subsection \<open>Board constants\<close>

definition N_PIECES :: nat where "N_PIECES = 7"
definition TRACK_LEN :: int where "TRACK_LEN = 14"
definition ROSETTES :: "int set" where "ROSETTES = {3, 7, 13}"
definition SHARED :: "int set" where "SHARED = {4..11}"
definition CAPTURE_SQUARES :: "int set" where "CAPTURE_SQUARES = SHARED - ROSETTES"

subsection \<open>Game state\<close>

text \<open>
  The fields \<open>positions\<close> and \<open>current_player\<close> of the class. Its generator
  \<open>self.rng\<close> is read by \<open>roll_dice\<close> only and is kept apart (see Dice).
\<close>

record game =
  positions :: "int list list"
  current_player :: int

definition new_game :: game where
  "new_game = \<lparr> positions = [replicate N_PIECES (- 1), replicate N_PIECES (- 1)],
                current_player = 0 \<rparr>"

subsection \<open>Dice\<close>

text \<open>
  \<open>self.rng\<close> is a pseudo-random generator; it is modelled as the stream of raw draws it
  will produce. \<open>rng.choice(seq)\<close> raises \<open>IndexError\<close> on an empty sequence and otherwise
  returns the element the next draw selects.
\<close>

type_synonym rng = "nat stream"

definition choice :: "'a list \<Rightarrow> rng \<Rightarrow> (error + 'a) \<times> rng" where
  "choice seq r =
     (if seq = [] then (Inl IndexError, r)
      else (Inr (seq ! (shd r mod length seq)), stl r))"

text \<open>\<open>sum(self.rng.choice([0, 1]) for _ in range(4))\<close>, the running sum made explicit.\<close>

fun sum_choices :: "nat \<Rightarrow> rng \<Rightarrow> int \<Rightarrow> (error + int) \<times> rng" where
  "sum_choices 0 r acc = (Inr acc, r)"
| "sum_choices (Suc n) r acc =
     (case choice [0, 1] r of
        (Inl e, r') \<Rightarrow> (Inl e, r')
      | (Inr b, r') \<Rightarrow> sum_choices n r' (acc + b))"

definition roll_dice :: "rng \<Rightarrow> (error + int) \<times> rng" where
  "roll_dice r = sum_choices 4 r 0"

subsection \<open>Move generation\<close>

text \<open>A move is \<open>(piece_index or None, newpos, extra_turn, captured_piece_index or None)\<close>.\<close>

type_synonym move = "int option \<times> int \<times> bool \<times> int option"

definition track_set :: "int list \<Rightarrow> int set" where
  "track_set ps = set (filter (\<lambda>pos. 0 \<le> pos \<and> pos < TRACK_LEN) ps)"

definition opp_index_by_pos :: "int list \<Rightarrow> (int \<rightharpoonup> int)" where
  "opp_index_by_pos opp_positions =
     fold (\<lambda>(idx, pos) d.
             if 0 \<le> pos \<and> pos < TRACK_LEN \<and> d pos = None then d(pos \<mapsto> int idx) else d)
          (enumerate 0 opp_positions) Map.empty"

text \<open>
  The closure \<open>landing_info\<close> reads \<open>own_set\<close>, \<open>opp_set\<close> and \<open>opp_index_by_pos\<close> of the
  enclosing call; they are its first three arguments here. A missing dictionary key is
  \<open>KeyError\<close>.
\<close>

definition landing_info ::
  "int set \<Rightarrow> int set \<Rightarrow> (int \<rightharpoonup> int) \<Rightarrow> int \<Rightarrow> error + (bool \<times> int option)" where
  "landing_info own_set opp_set idx_by_pos newpos =
     (if newpos \<in> own_set then Inr (False, None)
      else if newpos \<in> SHARED \<and> newpos \<in> opp_set then
        (if newpos \<in> CAPTURE_SQUARES then
           (case idx_by_pos newpos of
              None \<Rightarrow> Inl KeyError
            | Some captured \<Rightarrow> Inr (True, Some captured))
         else Inr (False, None))
      else Inr (True, None))"

text \<open>The loop over \<open>enumerate(own_positions)\<close>; \<open>li\<close> is the closure \<open>landing_info\<close>.\<close>

fun move_pieces ::
  "(int \<Rightarrow> error + (bool \<times> int option)) \<Rightarrow> int \<Rightarrow> (nat \<times> int) list \<Rightarrow> move list
     \<Rightarrow> error + move list" where
  "move_pieces li roll [] moves = Inr moves"
| "move_pieces li roll ((i, pos) # rest) moves =
     (if pos < 0 \<or> pos \<ge> TRACK_LEN then move_pieces li roll rest moves
      else let newpos = pos + roll in
        if newpos > TRACK_LEN then move_pieces li roll rest moves
        else if newpos = TRACK_LEN then
          move_pieces li roll rest (moves @ [(Some (int i), newpos, False, None)])
        else
          (case li newpos of
             Inl e \<Rightarrow> Inl e
           | Inr (allowed, captured_idx) \<Rightarrow>
               if \<not> allowed then move_pieces li roll rest moves
               else move_pieces li roll rest
                      (moves @ [(Some (int i), newpos, newpos \<in> ROSETTES, captured_idx)])))"

text \<open>The block "Enter a new piece from off-board".\<close>

definition enter_piece ::
  "(int \<Rightarrow> error + (bool \<times> int option)) \<Rightarrow> int list \<Rightarrow> int \<Rightarrow> move list
     \<Rightarrow> error + move list" where
  "enter_piece li own_positions roll moves =
     (if - 1 \<in> set own_positions then
        (let entry_pos = roll - 1 in
         if 0 \<le> entry_pos \<and> entry_pos < TRACK_LEN then
           (case li entry_pos of
              Inl e \<Rightarrow> Inl e
            | Inr (allowed, captured_idx) \<Rightarrow>
                if allowed then
                  Inr (moves @ [(None, entry_pos, entry_pos \<in> ROSETTES, captured_idx)])
                else Inr moves)
         else Inr moves)
      else Inr moves)"

definition legal_moves :: "game \<Rightarrow> int \<Rightarrow> int \<Rightarrow> error + move list" where
  "legal_moves g player roll =
     (if roll = 0 then Inr []
      else
        (let opponent = 1 - player in
         case py_get (positions g) player of
           Inl e \<Rightarrow> Inl e
         | Inr own_positions \<Rightarrow>
             (case py_get (positions g) opponent of
                Inl e \<Rightarrow> Inl e
              | Inr opp_positions \<Rightarrow>
                  (let li = landing_info (track_set own_positions) (track_set opp_positions)
                              (opp_index_by_pos opp_positions) in
                   case move_pieces li roll (enumerate 0 own_positions) [] of
                     Inl e \<Rightarrow> Inl e
                   | Inr moves \<Rightarrow> enter_piece li own_positions roll moves))))"

subsection \<open>Move application\<close>

text \<open>
  \<open>self.positions[p][i] = v\<close>. The two rows are distinct list objects, so the store
  changes one row only.
\<close>

definition set_position :: "game \<Rightarrow> int \<Rightarrow> int \<Rightarrow> int \<Rightarrow> error + game" where
  "set_position g p i v =
     (case norm_index (length (positions g)) p of
        Inl e \<Rightarrow> Inl e
      | Inr k \<Rightarrow>
          (case py_set (positions g ! k) i v of
             Inl e \<Rightarrow> Inl e
           | Inr row \<Rightarrow> Inr (g\<lparr>positions := (positions g)[k := row]\<rparr>)))"

text \<open>
  \<open>apply_move\<close> mutates the game in place, so the model returns the game together with
  the outcome: what was written before an exception stays written.
\<close>

definition apply_move :: "game \<Rightarrow> int \<Rightarrow> move \<Rightarrow> (error + bool) \<times> game" where
  "apply_move g player mv =
     (case mv of (piece_idx, newpos, extra, captured_idx) \<Rightarrow>
        (let opponent = 1 - player in
         case (case captured_idx of
                 None \<Rightarrow> Inr g
               | Some c \<Rightarrow> set_position g opponent c (- 1)) of
           Inl e \<Rightarrow> (Inl e, g)
         | Inr g1 \<Rightarrow>
             (case piece_idx of
                None \<Rightarrow>
                  (case py_get (positions g1) player of
                     Inl e \<Rightarrow> (Inl e, g1)
                   | Inr own \<Rightarrow>
                       (case index_of own (- 1) of
                          None \<Rightarrow> (Inl ValueError, g1)
                        | Some new_piece \<Rightarrow>
                            (case set_position g1 player (int new_piece) newpos of
                               Inl e \<Rightarrow> (Inl e, g1)
                             | Inr g2 \<Rightarrow> (Inr extra, g2))))
              | Some i \<Rightarrow>
                  (case set_position g1 player i newpos of
                     Inl e \<Rightarrow> (Inl e, g1)
                   | Inr g2 \<Rightarrow> (Inr extra, g2)))))"

definition is_winner :: "game \<Rightarrow> int \<Rightarrow> error + bool" where
  "is_winner g player =
     (case py_get (positions g) player of
        Inl e \<Rightarrow> Inl e
      | Inr row \<Rightarrow> Inr (list_all (\<lambda>pos. pos = TRACK_LEN) row))"

subsection \<open>What one pass of the generator appends\<close>

text \<open>
  The moves one iteration of the loop over \<open>enumerate(own_positions)\<close> appends, and the
  moves the entry block appends, when \<open>landing_info\<close> raises nothing. They only serve to
  state what \<open>move_pieces\<close> and \<open>enter_piece\<close> compute (\<open>move_pieces_eq\<close>,
  \<open>enter_piece_eq\<close>).
\<close>

definition piece_moves ::
  "(int \<Rightarrow> error + (bool \<times> int option)) \<Rightarrow> int \<Rightarrow> nat \<times> int \<Rightarrow> move list" where
  "piece_moves li roll ip =
     (case ip of (i, pos) \<Rightarrow>
        if pos < 0 \<or> pos \<ge> TRACK_LEN \<or> pos + roll > TRACK_LEN then []
        else if pos + roll = TRACK_LEN then [(Some (int i), pos + roll, False, None)]
        else (case li (pos + roll) of
                Inr (True, c) \<Rightarrow> [(Some (int i), pos + roll, pos + roll \<in> ROSETTES, c)]
              | _ \<Rightarrow> []))"

definition entry_moves ::
  "(int \<Rightarrow> error + (bool \<times> int option)) \<Rightarrow> int list \<Rightarrow> int \<Rightarrow> move list" where
  "entry_moves li own roll =
     (if - 1 \<in> set own \<and> 0 \<le> roll - 1 \<and> roll - 1 < TRACK_LEN then
        (case li (roll - 1) of
           Inr (True, c) \<Rightarrow> [(None, roll - 1, roll - 1 \<in> ROSETTES, c)]
         | _ \<Rightarrow> [])
      else [])"

subsection \<open>The turn state machine of \<open>main\<close>\<close>

text \<open>
  The loop of \<open>main\<close> keeps the game and the variables below, handles each left mouse
  click according to \<open>state\<close>, and at the end of each frame counts the two animations
  down. Drawing, the message texts and the geometry are left out: a click is given by
  what the hit tests of the handlers return for it. Of each entry of \<open>QUIZ_QUESTIONS\<close>
  only the third component, the index of the correct option, is kept. \<open>rng_state\<close> is
  the generator of the game object; a game started after \<open>game_over\<close> draws from the rest
  of the stream, which is as arbitrary as a fresh generator.
\<close>

definition QUIZ_TRIGGER_ROSETTES :: "int set" where
  "QUIZ_TRIGGER_ROSETTES = {3, 7}"

definition QUIZ_QUESTIONS :: "int list" where
  "QUIZ_QUESTIONS = [1, 2, 3, 1, 2, 1, 3, 1, 2, 2, 1, 1, 0, 2]"

definition CAPTURE_ANIM_FRAMES :: int where
  "CAPTURE_ANIM_FRAMES = 90"

datatype ui_state =
  await_roll | await_select | await_dest | await_continue | await_quiz | game_over
  | capture_anim | quiz_feedback

record ui =
  game :: game
  rng_state :: rng
  state :: ui_state
  roll_value :: "int option"
  legal_moves_var :: "move list"
  selected_piece :: "int option"
  quiz_question_index :: int
  quiz_current :: "int option"
  quiz_player :: "int option"
  quiz_correct_option :: "int option"
  quiz_last_choice :: "int option"
  quiz_feedback_frames :: int
  capture_square :: "int option"
  capture_anim_frames :: int
  post_capture_state :: "ui_state option"

text \<open>
  What the hit tests return for a click: \<open>roll_btn.collidepoint\<close>, \<open>cont_btn.collidepoint\<close>,
  \<open>rect_to_logical_pos_and_owner\<close> (\<open>None\<close> when no square is hit, else the square's
  position and owner), \<open>rack_area.collidepoint\<close>, and the first of the four answer
  rectangles that contains the point.
\<close>

record click =
  on_roll_btn :: bool
  on_cont_btn :: bool
  on_square :: "(int \<times> int option) option"
  on_rack :: bool
  on_answer :: "int option"

definition piece_can_move :: "ui \<Rightarrow> int option \<Rightarrow> bool" where
  "piece_can_move u piece_idx = list_ex (\<lambda>m. fst m = piece_idx) (legal_moves_var u)"

definition moves_for_piece :: "ui \<Rightarrow> int option \<Rightarrow> move list" where
  "moves_for_piece u piece_idx = filter (\<lambda>m. fst m = piece_idx) (legal_moves_var u)"

definition current_player_positions_on_track :: "game \<Rightarrow> int \<Rightarrow> error + (int \<rightharpoonup> int)" where
  "current_player_positions_on_track g player =
     (case py_get (positions g) player of
        Inl e \<Rightarrow> Inl e
      | Inr row \<Rightarrow>
          Inr (fold (\<lambda>(i, ppos) d. if 0 \<le> ppos \<and> ppos < TRACK_LEN then d(ppos \<mapsto> int i) else d)
                 (enumerate 0 row) Map.empty))"

text \<open>The search of the \<open>await_dest\<close> handler for the move the click chooses.\<close>

definition chosen_move :: "ui \<Rightarrow> click \<Rightarrow> move option" where
  "chosen_move u c =
     (case on_square c of
        None \<Rightarrow> None
      | Some (pos_clicked, owner) \<Rightarrow>
          if owner = None \<or> owner = Some (current_player (game u)) then
            find (\<lambda>m. fst (snd m) = pos_clicked) (moves_for_piece u (selected_piece u))
          else None)"

text \<open>The \<open>await_dest\<close> handler once a move is chosen.\<close>

definition execute_move :: "ui \<Rightarrow> move \<Rightarrow> error + ui" where
  "execute_move u chosen =
     (let p = current_player (game u);
          landing_pos = fst (snd chosen);
          captured = snd (snd (snd chosen)) in
      case apply_move (game u) p chosen of
        (Inl e, g1) \<Rightarrow> Inl e
      | (Inr extra, g1) \<Rightarrow>
          (let u1 = u\<lparr>game := g1, legal_moves_var := [], selected_piece := None\<rparr> in
           case is_winner g1 p of
             Inl e \<Rightarrow> Inl e
           | Inr won \<Rightarrow>
               (case (if won then Inr (u1, game_over)
                      else if extra \<and> landing_pos \<in> QUIZ_TRIGGER_ROSETTES then
                        (case py_get QUIZ_QUESTIONS (quiz_question_index u1) of
                           Inl e \<Rightarrow> Inl e
                         | Inr q \<Rightarrow>
                             Inr (u1\<lparr>quiz_player := Some p, quiz_current := Some q,
                                      quiz_correct_option := Some q\<rparr>, await_quiz))
                      else if extra then Inr (u1, await_roll)
                      else Inr (u1\<lparr>game := g1\<lparr>current_player := 1 - p\<rparr>\<rparr>, await_roll)) of
                  Inl e \<Rightarrow> Inl e
                | Inr (u2, next_state) \<Rightarrow>
                    if captured \<noteq> None then
                      Inr (u2\<lparr>capture_square := Some landing_pos,
                               capture_anim_frames := CAPTURE_ANIM_FRAMES,
                               post_capture_state := Some next_state,
                               state := capture_anim\<rparr>)
                    else Inr (u2\<lparr>state := next_state\<rparr>))))"

definition click_await_roll :: "ui \<Rightarrow> error + ui" where
  "click_await_roll u =
     (case roll_dice (rng_state u) of
        (Inl e, r') \<Rightarrow> Inl e
      | (Inr rv, r') \<Rightarrow>
          (case legal_moves (game u) (current_player (game u)) rv of
             Inl e \<Rightarrow> Inl e
           | Inr ms \<Rightarrow>
               Inr (u\<lparr>rng_state := r', roll_value := Some rv, legal_moves_var := ms,
                       selected_piece := None,
                       state := (if rv = 0 \<or> ms = [] then await_continue else await_select)\<rparr>)))"

definition click_await_continue :: "ui \<Rightarrow> ui" where
  "click_await_continue u =
     u\<lparr>game := (game u)\<lparr>current_player := 1 - current_player (game u)\<rparr>,
       roll_value := None, legal_moves_var := [], selected_piece := None,
       state := await_roll\<rparr>"

definition click_await_select :: "ui \<Rightarrow> click \<Rightarrow> error + ui" where
  "click_await_select u c =
     (let p = current_player (game u) in
      case current_player_positions_on_track (game u) p of
        Inl e \<Rightarrow> Inl e
      | Inr on_track \<Rightarrow>
          (let u1 =
             (case on_square c of
                None \<Rightarrow> u
              | Some (pos_clicked, owner) \<Rightarrow>
                  if owner = None \<or> owner = Some p then
                    (case on_track pos_clicked of
                       None \<Rightarrow> u
                     | Some piece_idx \<Rightarrow>
                         if piece_can_move u (Some piece_idx)
                         then u\<lparr>selected_piece := Some piece_idx, state := await_dest\<rparr>
                         else u)
                  else u) in
           Inr (if on_rack c \<and> piece_can_move u1 None
                then u1\<lparr>selected_piece := None, state := await_dest\<rparr> else u1)))"

definition click_await_dest :: "ui \<Rightarrow> click \<Rightarrow> error + ui" where
  "click_await_dest u c =
     (case chosen_move u c of
        Some chosen \<Rightarrow> execute_move u chosen
      | None \<Rightarrow> Inr (u\<lparr>selected_piece := None, state := await_select\<rparr>))"

definition click_await_quiz :: "ui \<Rightarrow> click \<Rightarrow> ui" where
  "click_await_quiz u c =
     (if quiz_current u \<noteq> None then
        (case on_answer c of
           None \<Rightarrow> u
         | Some idx \<Rightarrow>
             (let u1 = u\<lparr>quiz_question_index :=
                           (quiz_question_index u + 1) mod int (length QUIZ_QUESTIONS),
                         quiz_last_choice := Some idx\<rparr>;
                  u2 = (case quiz_player u1 of
                          None \<Rightarrow> u1
                        | Some qp \<Rightarrow>
                            if Some idx = quiz_correct_option u1
                            then u1\<lparr>game := (game u1)\<lparr>current_player := qp\<rparr>\<rparr>
                            else u1\<lparr>game := (game u1)\<lparr>current_player := 1 - qp\<rparr>\<rparr>)
              in u2\<lparr>quiz_feedback_frames := 30, state := quiz_feedback\<rparr>))
      else u)"

definition click_game_over :: "ui \<Rightarrow> click \<Rightarrow> ui" where
  "click_game_over u c =
     (if on_roll_btn c then
        u\<lparr>game := new_game, roll_value := None, legal_moves_var := [],
          selected_piece := None, state := await_roll\<rparr>
      else u)"

text \<open>One \<open>MOUSEBUTTONDOWN\<close> event of the left button.\<close>

definition on_click :: "ui \<Rightarrow> click \<Rightarrow> error + ui" where
  "on_click u c =
     (if state u = await_roll \<and> on_roll_btn c then click_await_roll u
      else if state u = await_continue \<and> on_cont_btn c then Inr (click_await_continue u)
      else if state u = await_select then click_await_select u c
      else if state u = await_dest then click_await_dest u c
      else if state u = await_quiz then Inr (click_await_quiz u c)
      else if state u = game_over then Inr (click_game_over u c)
      else Inr u)"

text \<open>The two countdowns at the end of a frame.\<close>

definition tick :: "ui \<Rightarrow> ui" where
  "tick u =
     (let u1 =
        (if state u = capture_anim then
           (let ua = (if capture_anim_frames u > 0
                      then u\<lparr>capture_anim_frames := capture_anim_frames u - 1\<rparr> else u) in
            if capture_anim_frames ua \<le> 0 then
              ua\<lparr>state := (case post_capture_state ua of None \<Rightarrow> await_roll | Some s \<Rightarrow> s),
                 capture_square := None, post_capture_state := None\<rparr>
            else ua)
         else u) in
      if state u1 = quiz_feedback then
        (let ub = (if quiz_feedback_frames u1 > 0
                   then u1\<lparr>quiz_feedback_frames := quiz_feedback_frames u1 - 1\<rparr> else u1) in
         if quiz_feedback_frames ub \<le> 0 then
           ub\<lparr>quiz_current := None, quiz_player := None, quiz_correct_option := None,
              quiz_last_choice := None, state := await_roll\<rparr>
         else ub)
      else u1)"

subsection \<open>Reachable games and the board invariant\<close>

text \<open>
  The games the program can reach: it starts from \<open>new_game\<close>, assigns \<open>current_player\<close>
  0 or 1, and applies moves that \<open>legal_moves\<close> returned for the current player and a roll
  of \<open>roll_dice\<close> (between 0 and 4).
\<close>

definition in_range :: "int list \<Rightarrow> bool" where
  "in_range row \<longleftrightarrow> (\<forall>x \<in> set row. - 1 \<le> x \<and> x \<le> 14)"

definition no_stack :: "int list \<Rightarrow> bool" where
  "no_stack row \<longleftrightarrow>
     (\<forall>i<length row. \<forall>j<length row. i \<noteq> j \<and> 0 \<le> row ! i \<and> row ! i \<le> 13 \<longrightarrow> row ! i \<noteq> row ! j)"

definition exclusive :: "int list \<Rightarrow> int list \<Rightarrow> bool" where
  "exclusive a b \<longleftrightarrow> (\<forall>d. 4 \<le> d \<and> d \<le> 11 \<longrightarrow> \<not> (d \<in> set a \<and> d \<in> set b))"

definition rows_inv :: "int list \<Rightarrow> int list \<Rightarrow> bool" where
  "rows_inv a b \<longleftrightarrow>
     length a = N_PIECES \<and> length b = N_PIECES \<and> in_range a \<and> in_range b \<and>
     no_stack a \<and> no_stack b \<and> exclusive a b"

inductive reachable :: "game \<Rightarrow> bool" where
  init: "reachable new_game"
| turn: "reachable g \<Longrightarrow> p = 0 \<or> p = 1 \<Longrightarrow> reachable (g\<lparr>current_player := p\<rparr>)"
| move: "reachable g \<Longrightarrow> 0 \<le> roll \<Longrightarrow> roll \<le> 4 \<Longrightarrow>
         legal_moves g (current_player g) roll = Inr ms \<Longrightarrow> m \<in> set ms \<Longrightarrow>
         apply_move g (current_player g) m = (r, g') \<Longrightarrow> reachable g'"

section \<open>Auxiliary facts\<close>

subsection \<open>Dice, subscripts and the landing rule\<close>

lemma choice01: "choice [0, 1::int] r = (Inr (if even (shd r) then 0 else 1), stl r)"
  by (auto simp: choice_def nth_Cons' split: if_splits) presburger+

lemma sum_choices_range:
  "\<exists>v r'. sum_choices n r acc = (Inr v, r') \<and> acc \<le> v \<and> v \<le> acc + int n"
proof (induction n arbitrary: r acc)
  case 0
  show ?case by simp
next
  case (Suc n)
  let ?b = "if even (shd r) then 0 else (1::int)"
  from Suc.IH [of "stl r" "acc + ?b"]
  obtain v r' where "sum_choices n (stl r) (acc + ?b) = (Inr v, r')"
    and "acc + ?b \<le> v" and "v \<le> acc + ?b + int n" by blast
  then show ?case by (auto simp: choice01 split: if_splits)
qed

lemma choice01_mod: "choice [0, 1::int] r = (Inr (int (shd r mod 2)), stl r)"
  by (simp add: choice01) presburger

lemma roll_dice_draws:
  "roll_dice r =
     (Inr (int (r !! 0 mod 2) + int (r !! 1 mod 2) + int (r !! 2 mod 2) + int (r !! 3 mod 2)),
      sdrop 4 r)"
  by (simp add: roll_dice_def numeral_eq_Suc choice01_mod)

lemma index_of_Some:
  "index_of xs v = Some k \<Longrightarrow> k < length xs \<and> xs ! k = v \<and> (\<forall>j<k. xs ! j \<noteq> v)"
proof (induction xs arbitrary: k)
  case Nil
  then show ?case by simp
next
  case (Cons x xs)
  show ?case
  proof (cases "x = v")
    case True
    with Cons.prems show ?thesis by simp
  next
    case False
    with Cons.prems obtain k' where k: "index_of xs v = Some k'" "k = Suc k'" by auto
    from Cons.IH [OF k(1)] k(2) False show ?thesis
      by (auto simp: nth_Cons split: nat.splits)
  qed
qed

lemma index_of_None: "index_of xs v = None \<longleftrightarrow> v \<notin> set xs"
  by (induction xs) auto

lemma index_of_mem: "v \<in> set xs \<Longrightarrow> \<exists>k. index_of xs v = Some k"
  using index_of_None [of xs v] by (cases "index_of xs v") auto

lemma fold_index_by_pos:
  "fold (\<lambda>(idx, pos) d.
           if 0 \<le> pos \<and> pos < TRACK_LEN \<and> d pos = None then d(pos \<mapsto> int idx) else d)
        (enumerate n xs) d p =
   (case d p of
      Some v \<Rightarrow> Some v
    | None \<Rightarrow> if 0 \<le> p \<and> p < TRACK_LEN then map_option (\<lambda>k. int (n + k)) (index_of xs p)
              else None)"
proof (induction xs arbitrary: n d)
  case Nil
  show ?case by (simp split: option.splits)
next
  case (Cons x xs)
  show ?case
    by (cases "index_of xs p") (auto simp: Cons.IH split: option.splits)
qed

lemma opp_index_by_pos_eq:
  "opp_index_by_pos opp p =
     (if 0 \<le> p \<and> p < TRACK_LEN then map_option int (index_of opp p) else None)"
  unfolding opp_index_by_pos_def by (simp add: fold_index_by_pos)

lemma track_set_iff: "p \<in> track_set ps \<longleftrightarrow> p \<in> set ps \<and> 0 \<le> p \<and> p < TRACK_LEN"
  by (auto simp: track_set_def)

lemma SHARED_iff: "d \<in> SHARED \<longleftrightarrow> 4 \<le> d \<and> d \<le> 11"
  by (simp add: SHARED_def)

lemma CAPTURE_iff: "d \<in> CAPTURE_SQUARES \<longleftrightarrow> 4 \<le> d \<and> d \<le> 11 \<and> d \<noteq> 7"
  by (auto simp: CAPTURE_SQUARES_def SHARED_def ROSETTES_def)


text \<open>What the closure returns, by cases on the two position lists.\<close>

lemma landing_info_eq:
  "landing_info (track_set own) (track_set opp) (opp_index_by_pos opp) d =
     (if d \<in> set own \<and> 0 \<le> d \<and> d < 14 then Inr (False, None)
      else if 4 \<le> d \<and> d \<le> 11 \<and> d \<in> set opp then
        (if d \<noteq> 7 then Inr (True, map_option int (index_of opp d)) else Inr (False, None))
      else Inr (True, None))"
  using index_of_mem [of d opp]
  by (auto simp: landing_info_def track_set_iff SHARED_iff CAPTURE_iff opp_index_by_pos_eq
      TRACK_LEN_def)

subsection \<open>The generated list\<close>

lemma move_pieces_eq:
  assumes "\<And>d. \<exists>a c. li d = Inr (a, c)"
  shows "move_pieces li roll xs acc = Inr (acc @ concat (map (piece_moves li roll) xs))"
proof (induction xs arbitrary: acc)
  case Nil
  show ?case by simp
next
  case (Cons x xs)
  obtain i pos where x: "x = (i, pos)" by (cases x)
  obtain a c where li: "li (pos + roll) = Inr (a, c)" using assms by blast
  show ?case unfolding x
    by (simp add: Cons.IH piece_moves_def Let_def li)
qed

lemma enter_piece_eq:
  assumes "\<And>d. \<exists>a c. li d = Inr (a, c)"
  shows "enter_piece li own roll moves = Inr (moves @ entry_moves li own roll)"
proof -
  obtain a c where li: "li (roll - 1) = Inr (a, c)" using assms by blast
  show ?thesis by (simp add: enter_piece_def entry_moves_def Let_def li)
qed

lemma landing_info_total:
  "\<exists>a c. landing_info (track_set own) (track_set opp) (opp_index_by_pos opp) d = Inr (a, c)"
  by (auto simp add: landing_info_eq)

lemma legal_moves_eq:
  assumes "roll \<noteq> 0"
    and "py_get (positions g) player = Inr own"
    and "py_get (positions g) (1 - player) = Inr opp"
  shows "legal_moves g player roll =
           Inr (concat (map (piece_moves
                  (landing_info (track_set own) (track_set opp) (opp_index_by_pos opp)) roll)
                  (enumerate 0 own))
                @ entry_moves
                    (landing_info (track_set own) (track_set opp) (opp_index_by_pos opp))
                    own roll)"
  using assms
  by (simp add: legal_moves_def Let_def move_pieces_eq [OF landing_info_total]
      enter_piece_eq [OF landing_info_total])

lemma legal_moves_Inr:
  assumes "legal_moves g player roll = Inr ms" and "ms \<noteq> []"
  shows "\<exists>own opp. roll \<noteq> 0 \<and> py_get (positions g) player = Inr own
           \<and> py_get (positions g) (1 - player) = Inr opp"
  using assms by (auto simp: legal_moves_def Let_def split: if_splits sum.splits)


lemma bex_enumerate: "(\<exists>x \<in> set (enumerate 0 xs). P x) \<longleftrightarrow> (\<exists>i<length xs. P (i, xs ! i))"
  by (auto simp: in_set_enumerate_eq)

lemma in_piece_moves_enumerate:
  "m \<in> set (concat (map (piece_moves li roll) (enumerate 0 own))) \<longleftrightarrow>
     (\<exists>i<length own. m \<in> set (piece_moves li roll (i, own ! i)))"
  by (simp add: bex_enumerate)

lemma in_piece_moves:
  "(p, d, e, c) \<in> set (piece_moves li roll (i, pos)) \<longleftrightarrow>
     p = Some (int i) \<and> d = pos + roll \<and> 0 \<le> pos \<and> pos < 14 \<and>
     (d = 14 \<and> \<not> e \<and> c = None \<or> d < 14 \<and> li d = Inr (True, c) \<and> e = (d \<in> ROSETTES))"
  by (auto simp: piece_moves_def TRACK_LEN_def split: sum.splits bool.splits)

lemma entry_moves_Inl: "li (roll - 1) = Inl err \<Longrightarrow> entry_moves li own roll = []"
  by (simp add: entry_moves_def)

lemma entry_moves_Inr:
  "li (roll - 1) = Inr (a, c') \<Longrightarrow>
   entry_moves li own roll =
     (if - 1 \<in> set own \<and> 1 \<le> roll \<and> roll \<le> 14 \<and> a
      then [(None, roll - 1, roll - 1 \<in> ROSETTES, c')] else [])"
  by (cases a) (auto simp add: entry_moves_def TRACK_LEN_def)

lemma in_entry_moves:
  "(p, d, e, c) \<in> set (entry_moves li own roll) \<longleftrightarrow>
     p = None \<and> d = roll - 1 \<and> - 1 \<in> set own \<and> 1 \<le> roll \<and> roll \<le> 14 \<and>
     li (roll - 1) = Inr (True, c) \<and> e = (roll - 1 \<in> ROSETTES)"
proof (cases "li (roll - 1)")
  case (Inl err)
  then show ?thesis by (simp add: entry_moves_Inl)
next
  case (Inr ac)
  obtain a c' where "ac = (a, c')" by (cases ac)
  with Inr have "li (roll - 1) = Inr (a, c')" by simp
  then show ?thesis by (auto simp add: entry_moves_Inr)
qed

lemma landing_allowed:
  "landing_info (track_set own) (track_set opp) (opp_index_by_pos opp) d = Inr (True, c) \<longleftrightarrow>
     \<not> (d \<in> set own \<and> 0 \<le> d \<and> d < 14) \<and>
     (if 4 \<le> d \<and> d \<le> 11 \<and> d \<in> set opp then d \<noteq> 7 \<and> c = map_option int (index_of opp d)
      else c = None)"
  by (simp only: landing_info_eq) (auto split: if_splits)

text \<open>Every move of the list, read off the two position lists.\<close>

lemma legal_move_cases:
  assumes lm: "legal_moves g player roll = Inr ms" and m: "(p, d, e, c) \<in> set ms"
    and own: "py_get (positions g) player = Inr own"
    and opp: "py_get (positions g) (1 - player) = Inr opp"
  shows "roll \<noteq> 0 \<and>
     ((\<exists>i<length own. p = Some (int i) \<and> d = own ! i + roll \<and> 0 \<le> own ! i \<and> own ! i < 14)
      \<or> p = None \<and> d = roll - 1 \<and> - 1 \<in> set own \<and> 1 \<le> roll \<and> roll \<le> 14) \<and>
     (d = 14 \<and> \<not> e \<and> c = None \<or>
      d < 14 \<and> e = (d \<in> ROSETTES) \<and>
      landing_info (track_set own) (track_set opp) (opp_index_by_pos opp) d = Inr (True, c))"
proof -
  from lm m have r: "roll \<noteq> 0" by (auto simp: legal_moves_def)
  from lm m show ?thesis
    unfolding legal_moves_eq [OF r own opp]
    by (auto simp: r bex_enumerate in_piece_moves in_entry_moves)
qed

subsection \<open>Applying a move; the invariant\<close>

lemma norm_index_nat: "k < n \<Longrightarrow> norm_index n (int k) = Inr k"
  by (simp add: norm_index_def)

lemma py_set_nat: "k < length xs \<Longrightarrow> py_set xs (int k) v = Inr (xs[k := v])"
  by (simp add: py_set_def norm_index_nat)

lemma set_position_two:
  assumes "positions g = [r0, r1]"
  shows "k < length r0 \<Longrightarrow>
           set_position g 0 (int k) v = Inr (g\<lparr>positions := [r0[k := v], r1]\<rparr>)"
    and "k < length r1 \<Longrightarrow>
           set_position g 1 (int k) v = Inr (g\<lparr>positions := [r0, r1[k := v]]\<rparr>)"
  using assms by (simp_all add: set_position_def norm_index_def py_set_nat)

lemma py_get_two:
  assumes "positions g = [r0, r1]"
  shows "py_get (positions g) 0 = Inr r0" and "py_get (positions g) 1 = Inr r1"
  using assms by (simp_all add: py_get_def norm_index_def)

text \<open>The rows after a move of player 0 and of player 1, on a two-row game.\<close>

lemma apply_move_piece0:
  assumes g: "positions g = [r0, r1]" and j: "j < length r0"
    and c: "c = None \<or> (\<exists>k<length r1. c = Some (int k))"
  shows "apply_move g 0 (Some (int j), d, e, c) =
           (Inr e, g\<lparr>positions :=
              [r0[j := d], case c of None \<Rightarrow> r1 | Some k \<Rightarrow> r1[nat k := - 1]]\<rparr>)"
  using c j
  by (auto simp: apply_move_def set_position_two [OF g] set_position_def norm_index_def
      py_set_nat g)

lemma apply_move_piece1:
  assumes g: "positions g = [r0, r1]" and j: "j < length r1"
    and c: "c = None \<or> (\<exists>k<length r0. c = Some (int k))"
  shows "apply_move g 1 (Some (int j), d, e, c) =
           (Inr e, g\<lparr>positions :=
              [case c of None \<Rightarrow> r0 | Some k \<Rightarrow> r0[nat k := - 1], r1[j := d]]\<rparr>)"
  using c j
  by (auto simp: apply_move_def set_position_two [OF g] set_position_def norm_index_def
      py_set_nat g)

lemma apply_move_entry0:
  assumes g: "positions g = [r0, r1]" and j: "index_of r0 (- 1) = Some j"
    and c: "c = None \<or> (\<exists>k<length r1. c = Some (int k))"
  shows "apply_move g 0 (None, d, e, c) =
           (Inr e, g\<lparr>positions :=
              [r0[j := d], case c of None \<Rightarrow> r1 | Some k \<Rightarrow> r1[nat k := - 1]]\<rparr>)"
  using c j index_of_Some [OF j]
  by (auto simp: apply_move_def set_position_two [OF g] set_position_def norm_index_def
      py_set_nat py_get_def g)

lemma apply_move_entry1:
  assumes g: "positions g = [r0, r1]" and j: "index_of r1 (- 1) = Some j"
    and c: "c = None \<or> (\<exists>k<length r0. c = Some (int k))"
  shows "apply_move g 1 (None, d, e, c) =
           (Inr e, g\<lparr>positions :=
              [case c of None \<Rightarrow> r0 | Some k \<Rightarrow> r0[nat k := - 1], r1[j := d]]\<rparr>)"
  using c j index_of_Some [OF j]
  by (auto simp: apply_move_def set_position_two [OF g] set_position_def norm_index_def
      py_set_nat py_get_def g)


lemma rows_inv_sym: "rows_inv a b \<Longrightarrow> rows_inv b a"
  by (auto simp: rows_inv_def exclusive_def)

lemma in_range_update: "in_range row \<Longrightarrow> - 1 \<le> d \<Longrightarrow> d \<le> 14 \<Longrightarrow> in_range (row[j := d])"
  unfolding in_range_def using set_update_subset_insert [of row j d] by auto

lemma no_stack_update:
  assumes ns: "no_stack row" and d: "0 \<le> d \<and> d \<le> 13 \<longrightarrow> d \<notin> set row"
  shows "no_stack (row[j := d])"
  unfolding no_stack_def
proof (intro allI impI)
  fix i i'
  assume i: "i < length (row[j := d])" and i': "i' < length (row[j := d])"
    and h: "i \<noteq> i' \<and> 0 \<le> row[j := d] ! i \<and> row[j := d] ! i \<le> 13"
  show "row[j := d] ! i \<noteq> row[j := d] ! i'"
  proof (cases "i = j")
    case True
    with i i' h have "row[j := d] ! i = d" "row[j := d] ! i' = row ! i'" "0 \<le> d" "d \<le> 13"
      by auto
    moreover from i' have "row ! i' \<in> set row" by simp
    ultimately show ?thesis using d by auto
  next
    case False
    note ij = this
    show ?thesis
    proof (cases "i' = j")
      case True
      with i i' h ij have a: "row[j := d] ! i = row ! i" "row[j := d] ! i' = d"
        "0 \<le> row ! i" "row ! i \<le> 13" by auto
      from i have "row ! i \<in> set row" by simp
      with a d show ?thesis by auto
    next
      case False
      with ij i i' h ns show ?thesis by (auto simp: no_stack_def)
    qed
  qed
qed

lemma exclusive_step:
  assumes ex: "exclusive own opp" and ns: "no_stack opp"
    and c: "c = None \<and> \<not> (4 \<le> d \<and> d \<le> 11 \<and> d \<in> set opp)
            \<or> (\<exists>k<length opp. c = Some (int k) \<and> opp ! k = d \<and> 0 \<le> d \<and> d \<le> 13)"
  shows "exclusive (own[j := d]) (case c of None \<Rightarrow> opp | Some k \<Rightarrow> opp[nat k := - 1])"
  unfolding exclusive_def
proof (intro allI impI notI)
  fix x :: int
  let ?opp' = "case c of None \<Rightarrow> opp | Some k \<Rightarrow> opp[nat k := - 1]"
  assume x: "4 \<le> x \<and> x \<le> 11" and both: "x \<in> set (own[j := d]) \<and> x \<in> set ?opp'"
  have sub: "set ?opp' \<subseteq> insert (- 1) (set opp)"
    using set_update_subset_insert [of opp _ "- 1"] by (auto split: option.splits)
  with x both have xo: "x \<in> set opp" by auto
  from both have "x = d \<or> x \<in> set own"
    using set_update_subset_insert [of own j d] by auto
  with ex x xo have xd: "x = d" by (auto simp: exclusive_def)
  from c show False
  proof
    assume "c = None \<and> \<not> (4 \<le> d \<and> d \<le> 11 \<and> d \<in> set opp)"
    with x xo xd show False by simp
  next
    assume "\<exists>k<length opp. c = Some (int k) \<and> opp ! k = d \<and> 0 \<le> d \<and> d \<le> 13"
    then obtain k where k: "k < length opp" "c = Some (int k)" "opp ! k = d" by blast
    from both k have "d \<in> set (opp[k := - 1])" using xd by simp
    then obtain k' where k': "k' < length opp" "opp[k := - 1] ! k' = d"
      by (auto simp: in_set_conv_nth)
    with x xd have "k' \<noteq> k" by auto
    with k k' have "opp ! k' = opp ! k" by simp
    moreover from x xd k have "0 \<le> opp ! k \<and> opp ! k \<le> 13" by simp
    moreover from ns k(1) k'(1) have
      "k \<noteq> k' \<and> 0 \<le> opp ! k \<and> opp ! k \<le> 13 \<longrightarrow> opp ! k \<noteq> opp ! k'"
      unfolding no_stack_def by blast
    ultimately show False using \<open>k' \<noteq> k\<close> by auto
  qed
qed

lemma rows_inv_step:
  assumes inv: "rows_inv own opp"
    and d: "- 1 \<le> d" "d \<le> 14" "0 \<le> d \<and> d \<le> 13 \<longrightarrow> d \<notin> set own"
    and c: "c = None \<and> \<not> (4 \<le> d \<and> d \<le> 11 \<and> d \<in> set opp)
            \<or> (\<exists>k<length opp. c = Some (int k) \<and> opp ! k = d \<and> 0 \<le> d \<and> d \<le> 13)"
  shows "rows_inv (own[j := d]) (case c of None \<Rightarrow> opp | Some k \<Rightarrow> opp[nat k := - 1])"
proof -
  let ?opp' = "case c of None \<Rightarrow> opp | Some k \<Rightarrow> opp[nat k := - 1]"
  from inv have a: "length own = N_PIECES" "length opp = N_PIECES" "in_range own" "in_range opp"
    "no_stack own" "no_stack opp" "exclusive own opp" by (simp_all add: rows_inv_def)
  have "length ?opp' = N_PIECES" using a(2) by (simp split: option.splits)
  moreover have "in_range ?opp'" using a(4) by (auto split: option.splits intro: in_range_update)
  moreover have "no_stack ?opp'" using a(6)
    by (auto split: option.splits intro: no_stack_update)
  moreover have "in_range (own[j := d])" using a(3) d by (simp add: in_range_update)
  moreover have "no_stack (own[j := d])" using a(5) d(3) by (rule no_stack_update)
  moreover have "exclusive (own[j := d]) ?opp'" using a(7) a(6) c by (rule exclusive_step)
  ultimately show ?thesis using a(1) by (simp add: rows_inv_def)
qed


lemma legal_move_shape:
  assumes lm: "legal_moves g player roll = Inr ms" and m: "(p, d, e, c) \<in> set ms"
    and own: "py_get (positions g) player = Inr own"
    and opp: "py_get (positions g) (1 - player) = Inr opp"
  shows "(\<exists>j<length own. p = Some (int j) \<and> 0 \<le> own ! j \<and> own ! j < 14 \<and> d = own ! j + roll
            \<or> p = None \<and> index_of own (- 1) = Some j \<and> d = roll - 1 \<and> 1 \<le> roll)
       \<and> (0 \<le> roll \<longrightarrow> - 1 \<le> d) \<and> d \<le> 14 \<and> (0 \<le> d \<and> d \<le> 13 \<longrightarrow> d \<notin> set own)
       \<and> (c = None \<and> \<not> (4 \<le> d \<and> d \<le> 11 \<and> d \<in> set opp)
            \<or> (\<exists>k<length opp. c = Some (int k) \<and> opp ! k = d \<and> 0 \<le> d \<and> d \<le> 13))
       \<and> (d = 14 \<longrightarrow> \<not> e \<and> p \<noteq> None)"
proof -
  note lc = legal_move_cases [OF lm m own opp]
  have src: "\<exists>j<length own. p = Some (int j) \<and> 0 \<le> own ! j \<and> own ! j < 14 \<and> d = own ! j + roll
            \<or> p = None \<and> index_of own (- 1) = Some j \<and> d = roll - 1 \<and> 1 \<le> roll"
  proof -
    from lc consider
      (piece) j where "j < length own" "p = Some (int j)" "0 \<le> own ! j" "own ! j < 14"
        "d = own ! j + roll"
      | (entry) "p = None" "d = roll - 1" "- 1 \<in> set own" "1 \<le> roll" by blast
    then show ?thesis
    proof cases
      case piece
      then show ?thesis by blast
    next
      case entry
      from index_of_mem [OF entry(3)] obtain j where j: "index_of own (- 1) = Some j" by blast
      from index_of_Some [OF j] j entry show ?thesis by blast
    qed
  qed
  have rng: "(0 \<le> roll \<longrightarrow> - 1 \<le> d) \<and> d \<le> 14" using lc by auto
  have own_free: "0 \<le> d \<and> d \<le> 13 \<longrightarrow> d \<notin> set own" using lc by (auto simp: landing_allowed)
  have cap: "c = None \<and> \<not> (4 \<le> d \<and> d \<le> 11 \<and> d \<in> set opp)
            \<or> (\<exists>k<length opp. c = Some (int k) \<and> opp ! k = d \<and> 0 \<le> d \<and> d \<le> 13)"
  proof (cases "4 \<le> d \<and> d \<le> 11 \<and> d \<in> set opp")
    case True
    then obtain k where k: "index_of opp d = Some k" using index_of_mem by fastforce
    from lc True have "c = map_option int (index_of opp d)" by (auto simp: landing_allowed)
    with k index_of_Some [OF k] True show ?thesis by auto
  next
    case False
    with lc have "c = None" by (auto simp: landing_allowed)
    with False show ?thesis by simp
  qed
  have fin: "d = 14 \<longrightarrow> \<not> e \<and> p \<noteq> None" using lc by auto
  from src rng own_free cap fin show ?thesis by blast
qed

lemma apply_legal_move:
  assumes g: "positions g = [r0, r1]" and inv: "rows_inv r0 r1"
    and pl: "player = 0 \<or> player = 1" and roll: "0 \<le> roll"
    and lm: "legal_moves g player roll = Inr ms" and m: "m \<in> set ms"
    and app: "apply_move g player m = (r, g')"
  shows "\<exists>r0' r1'. positions g' = [r0', r1'] \<and> rows_inv r0' r1'
           \<and> current_player g' = current_player g \<and> r = Inr (fst (snd (snd m)))"
proof -
  obtain p d e c where mv: "m = (p, d, e, c)" by (cases m)
  from pl show ?thesis
  proof
    assume p0: "player = 0"
    note sh = legal_move_shape [OF lm [unfolded p0] m [unfolded mv] py_get_two(1) [OF g]]
    from py_get_two(2) [OF g] have "py_get (positions g) (1 - 0) = Inr r1" by simp
    note sh = sh [OF this]
    from sh roll have step: "rows_inv (r0[j := d]) (case c of None \<Rightarrow> r1 | Some k \<Rightarrow> r1[nat k := - 1])"
      for j by (intro rows_inv_step [OF inv]) auto
    from sh have c: "c = None \<or> (\<exists>k<length r1. c = Some (int k))" by blast
    from sh obtain j where "j < length r0 \<and> p = Some (int j) \<or> p = None \<and> index_of r0 (- 1) = Some j"
      by blast
    then have "apply_move g 0 (p, d, e, c) =
           (Inr e, g\<lparr>positions :=
              [r0[j := d], case c of None \<Rightarrow> r1 | Some k \<Rightarrow> r1[nat k := - 1]]\<rparr>)"
      using apply_move_piece0 [OF g _ c] apply_move_entry0 [OF g _ c] by blast
    with app step [of j] show ?thesis by (auto simp: p0 mv)
  next
    assume p1: "player = 1"
    from py_get_two(1) [OF g] have o: "py_get (positions g) (1 - 1) = Inr r0" by simp
    note sh = legal_move_shape [OF lm [unfolded p1] m [unfolded mv] py_get_two(2) [OF g] o]
    from sh roll have "rows_inv (r1[j := d]) (case c of None \<Rightarrow> r0 | Some k \<Rightarrow> r0[nat k := - 1])"
      for j by (intro rows_inv_step [OF rows_inv_sym [OF inv]]) auto
    then have step: "rows_inv (case c of None \<Rightarrow> r0 | Some k \<Rightarrow> r0[nat k := - 1]) (r1[j := d])"
      for j by (rule rows_inv_sym)
    from sh have c: "c = None \<or> (\<exists>k<length r0. c = Some (int k))" by blast
    from sh obtain j where "j < length r1 \<and> p = Some (int j) \<or> p = None \<and> index_of r1 (- 1) = Some j"
      by blast
    then have "apply_move g 1 (p, d, e, c) =
           (Inr e, g\<lparr>positions :=
              [case c of None \<Rightarrow> r0 | Some k \<Rightarrow> r0[nat k := - 1], r1[j := d]]\<rparr>)"
      using apply_move_piece1 [OF g _ c] apply_move_entry1 [OF g _ c] by blast
    with app step [of j] show ?thesis by (auto simp: p1 mv)
  qed
qed

lemma rows_inv_new_game:
  "rows_inv (replicate N_PIECES (- 1)) (replicate N_PIECES (- 1))"
  by (auto simp: rows_inv_def in_range_def no_stack_def exclusive_def)

lemma reachable_rows:
  "reachable g \<Longrightarrow>
     \<exists>r0 r1. positions g = [r0, r1] \<and> rows_inv r0 r1 \<and> (current_player g = 0 \<or> current_player g = 1)"
proof (induction rule: reachable.induct)
  case init
  show ?case by (simp add: new_game_def rows_inv_new_game)
next
  case (turn g p)
  then show ?case by auto
next
  case (move g roll ms m r g')
  then obtain r0 r1 where g: "positions g = [r0, r1]" and inv: "rows_inv r0 r1"
    and cp: "current_player g = 0 \<or> current_player g = 1" by blast
  from apply_legal_move [OF g inv cp move.hyps(2) move.hyps(4) move.hyps(5) move.hyps(6)] cp
  show ?case by auto
qed

lemma apply_legal_move_result:
  assumes g: "positions g = [r0, r1]" and pl: "player = 0 \<or> player = 1"
    and lm: "legal_moves g player roll = Inr ms" and m: "(p, d, e, c) \<in> set ms"
  shows "\<exists>j. apply_move g player (p, d, e, c) =
             (Inr e, g\<lparr>positions :=
                (if player = 0
                 then [r0[j := d], case c of None \<Rightarrow> r1 | Some k \<Rightarrow> r1[nat k := - 1]]
                 else [case c of None \<Rightarrow> r0 | Some k \<Rightarrow> r0[nat k := - 1], r1[j := d]])\<rparr>)
           \<and> (p = None \<or> p = Some (int j)) \<and> (d = 14 \<longrightarrow> p \<noteq> None)"
  using pl
proof
  assume p0: "player = 0"
  from py_get_two(2) [OF g] have o: "py_get (positions g) (1 - 0) = Inr r1" by simp
  note sh = legal_move_shape [OF lm [unfolded p0] m py_get_two(1) [OF g] o]
  from sh have c: "c = None \<or> (\<exists>k<length r1. c = Some (int k))" by blast
  from sh obtain j where j: "j < length r0 \<and> p = Some (int j) \<or> p = None \<and> index_of r0 (- 1) = Some j"
    by blast
  then have "apply_move g 0 (p, d, e, c) =
         (Inr e, g\<lparr>positions :=
            [r0[j := d], case c of None \<Rightarrow> r1 | Some k \<Rightarrow> r1[nat k := - 1]]\<rparr>)"
    using apply_move_piece0 [OF g _ c] apply_move_entry0 [OF g _ c] by blast
  with j sh show ?thesis unfolding p0 by auto
next
  assume p1: "player = 1"
  from py_get_two(1) [OF g] have o: "py_get (positions g) (1 - 1) = Inr r0" by simp
  note sh = legal_move_shape [OF lm [unfolded p1] m py_get_two(2) [OF g] o]
  from sh have c: "c = None \<or> (\<exists>k<length r0. c = Some (int k))" by blast
  from sh obtain j where j: "j < length r1 \<and> p = Some (int j) \<or> p = None \<and> index_of r1 (- 1) = Some j"
    by blast
  then have "apply_move g 1 (p, d, e, c) =
         (Inr e, g\<lparr>positions :=
            [case c of None \<Rightarrow> r0 | Some k \<Rightarrow> r0[nat k := - 1], r1[j := d]]\<rparr>)"
    using apply_move_piece1 [OF g _ c] apply_move_entry1 [OF g _ c] by blast
  with j sh show ?thesis unfolding p1 by auto
qed

lemma nth_update_changed:
  "k < length xs \<Longrightarrow> xs[j := d] ! k \<noteq> xs ! k \<Longrightarrow> k = j \<and> xs[j := d] ! k = d"
  by (cases "k = j") auto

lemma captured_not_14:
  assumes "k < length row"
    and "(case c of None \<Rightarrow> row | Some i \<Rightarrow> row[nat i := - 1]) ! k = (14::int)"
  shows "row ! k = 14"
proof (cases c)
  case None
  with assms show ?thesis by simp
next
  case (Some i)
  show ?thesis
  proof (rule ccontr)
    assume "row ! k \<noteq> 14"
    with assms Some have "row[nat i := - 1] ! k \<noteq> row ! k" by simp
    from nth_update_changed [OF assms(1) this] assms Some show False by simp
  qed
qed

text \<open>Two games reached by play, for the examples below.\<close>

lemma reachable_example:
  "reachable \<lparr>positions = [[5, - 1, - 1, - 1, - 1, - 1, - 1], [- 1, - 1, - 1, - 1, - 1, - 1, - 1]],
              current_player = 0\<rparr>"
proof -
  let ?off = "[- 1, - 1, - 1, - 1, - 1, - 1, - 1 :: int]"
  let ?g1 = "\<lparr>positions = [3 # tl ?off, ?off], current_player = 0\<rparr>"
  let ?g2 = "\<lparr>positions = [3 # tl ?off, ?off], current_player = 1\<rparr>"
  let ?g3 = "\<lparr>positions = [3 # tl ?off, 3 # tl ?off], current_player = 1\<rparr>"
  let ?g4 = "\<lparr>positions = [3 # tl ?off, 5 # tl ?off], current_player = 1\<rparr>"
  let ?g5 = "\<lparr>positions = [3 # tl ?off, 5 # tl ?off], current_player = 0\<rparr>"
  let ?g6 = "\<lparr>positions = [5 # tl ?off, ?off], current_player = 0\<rparr>"
  have "reachable ?g1"
  proof (rule reachable.move [OF reachable.init, of 4 "[(None, 3, True, None)]"
        "(None, 3, True, None)" "Inr True"])
    show "legal_moves new_game (current_player new_game) 4 = Inr [(None, 3, True, None)]"
      by code_simp
    show "apply_move new_game (current_player new_game) (None, 3, True, None) = (Inr True, ?g1)"
      by code_simp
  qed simp_all
  from reachable.turn [OF this, of 1] have "reachable ?g2" by simp
  then have "reachable ?g3"
  proof (rule reachable.move [of _ 4 "[(None, 3, True, None)]" "(None, 3, True, None)" "Inr True"])
    show "legal_moves ?g2 (current_player ?g2) 4 = Inr [(None, 3, True, None)]" by code_simp
    show "apply_move ?g2 (current_player ?g2) (None, 3, True, None) = (Inr True, ?g3)"
      by code_simp
  qed simp_all
  then have "reachable ?g4"
  proof (rule reachable.move [of _ 2 "[(Some 0, 5, False, None), (None, 1, False, None)]"
        "(Some 0, 5, False, None)" "Inr False"])
    show "legal_moves ?g3 (current_player ?g3) 2
            = Inr [(Some 0, 5, False, None), (None, 1, False, None)]" by code_simp
    show "apply_move ?g3 (current_player ?g3) (Some 0, 5, False, None) = (Inr False, ?g4)"
      by code_simp
  qed simp_all
  from reachable.turn [OF this, of 0] have "reachable ?g5" by simp
  then have "reachable ?g6"
  proof (rule reachable.move [of _ 2 "[(Some 0, 5, False, Some 0), (None, 1, False, None)]"
        "(Some 0, 5, False, Some 0)" "Inr False"])
    show "legal_moves ?g5 (current_player ?g5) 2
            = Inr [(Some 0, 5, False, Some 0), (None, 1, False, None)]" by code_simp
    show "apply_move ?g5 (current_player ?g5) (Some 0, 5, False, Some 0) = (Inr False, ?g6)"
      by code_simp
  qed simp_all
  then show ?thesis by simp
qed

lemma reachable_example2:
  "reachable \<lparr>positions = [[11, - 1, - 1, - 1, - 1, - 1, - 1], [- 1, - 1, - 1, - 1, - 1, - 1, - 1]],
              current_player = 0\<rparr>"
proof -
  let ?off = "[- 1, - 1, - 1, - 1, - 1, - 1, - 1 :: int]"
  let ?g1 = "\<lparr>positions = [3 # tl ?off, ?off], current_player = 0\<rparr>"
  let ?g2 = "\<lparr>positions = [7 # tl ?off, ?off], current_player = 0\<rparr>"
  let ?g3 = "\<lparr>positions = [11 # tl ?off, ?off], current_player = 0\<rparr>"
  have "reachable ?g1"
  proof (rule reachable.move [OF reachable.init, of 4 "[(None, 3, True, None)]"
        "(None, 3, True, None)" "Inr True"])
    show "legal_moves new_game (current_player new_game) 4 = Inr [(None, 3, True, None)]"
      by code_simp
    show "apply_move new_game (current_player new_game) (None, 3, True, None) = (Inr True, ?g1)"
      by code_simp
  qed simp_all
  then have "reachable ?g2"
  proof (rule reachable.move [of _ 4 "[(Some 0, 7, True, None)]" "(Some 0, 7, True, None)"
        "Inr True"])
    show "legal_moves ?g1 (current_player ?g1) 4 = Inr [(Some 0, 7, True, None)]" by code_simp
    show "apply_move ?g1 (current_player ?g1) (Some 0, 7, True, None) = (Inr True, ?g2)"
      by code_simp
  qed simp_all
  then have "reachable ?g3"
  proof (rule reachable.move [of _ 4 "[(Some 0, 11, False, None), (None, 3, True, None)]"
        "(Some 0, 11, False, None)" "Inr False"])
    show "legal_moves ?g2 (current_player ?g2) 4
            = Inr [(Some 0, 11, False, None), (None, 3, True, None)]" by code_simp
    show "apply_move ?g2 (current_player ?g2) (Some 0, 11, False, None) = (Inr False, ?g3)"
      by code_simp
  qed simp_all
  then show ?thesis by simp
qed

subsection \<open>Frames and clicks\<close>

lemma tick_idle: "state u \<noteq> capture_anim \<Longrightarrow> state u \<noteq> quiz_feedback \<Longrightarrow> tick u = u"
  by (simp add: tick_def)

lemma ticks_idle:
  "state u \<noteq> capture_anim \<Longrightarrow> state u \<noteq> quiz_feedback \<Longrightarrow> (tick ^^ n) u = u"
  by (induction n) (simp_all add: tick_idle)

lemma game_tick: "game (tick u) = game u"
  by (simp add: tick_def Let_def)

lemma game_ticks: "game ((tick ^^ n) u) = game u"
  by (induction n) (simp_all add: game_tick)

lemma ticks_capture:
  assumes "state u = capture_anim" and "capture_anim_frames u \<le> int n" and "0 < n"
    and "post_capture_state u = Some s" and "s \<noteq> capture_anim" and "s \<noteq> quiz_feedback"
  shows "state ((tick ^^ n) u) = s"
  using assms
proof (induction n arbitrary: u)
  case 0
  then show ?case by simp
next
  case (Suc n)
  have step: "(tick ^^ Suc n) u = (tick ^^ n) (tick u)" by (simp add: funpow_swap1)
  show ?case
  proof (cases "capture_anim_frames u \<le> 1")
    case True
    with Suc.prems have "state (tick u) = s" by (auto simp: tick_def Let_def)
    with Suc.prems(5,6) show ?thesis unfolding step by (simp add: ticks_idle)
  next
    case False
    with Suc.prems have "state (tick u) = capture_anim"
      "capture_anim_frames (tick u) = capture_anim_frames u - 1"
      "post_capture_state (tick u) = Some s" by (auto simp: tick_def Let_def)
    moreover from False Suc.prems(2) have "capture_anim_frames u - 1 \<le> int n" "0 < n" by auto
    ultimately show ?thesis unfolding step using Suc.IH [of "tick u"] Suc.prems(5,6) by simp
  qed
qed

lemma ticks_feedback:
  assumes "state u = quiz_feedback" and "quiz_feedback_frames u \<le> int n" and "0 < n"
  shows "state ((tick ^^ n) u) = await_roll"
  using assms
proof (induction n arbitrary: u)
  case 0
  then show ?case by simp
next
  case (Suc n)
  have step: "(tick ^^ Suc n) u = (tick ^^ n) (tick u)" by (simp add: funpow_swap1)
  show ?case
  proof (cases "quiz_feedback_frames u \<le> 1")
    case True
    with Suc.prems have "state (tick u) = await_roll" by (auto simp: tick_def Let_def)
    then show ?thesis unfolding step by (simp add: ticks_idle)
  next
    case False
    with Suc.prems have "state (tick u) = quiz_feedback"
      "quiz_feedback_frames (tick u) = quiz_feedback_frames u - 1"
      by (auto simp: tick_def Let_def)
    moreover from False Suc.prems(2) have "quiz_feedback_frames u - 1 \<le> int n" "0 < n" by auto
    ultimately show ?thesis unfolding step using Suc.IH [of "tick u"] by simp
  qed
qed

lemma chosen_move_legal: "chosen_move u c = Some m \<Longrightarrow> m \<in> set (legal_moves_var u)"
  by (auto simp: chosen_move_def moves_for_piece_def find_Some_iff in_set_conv_nth
      split: option.splits if_splits dest!: nth_mem)

lemma legal_move_bonus:
  assumes lm: "legal_moves g player roll = Inr ms" and m: "(p, d, e, c) \<in> set ms"
    and own: "py_get (positions g) player = Inr own"
    and opp: "py_get (positions g) (1 - player) = Inr opp"
  shows "(e \<longleftrightarrow> d \<in> ROSETTES) \<and> (c \<noteq> None \<longrightarrow> d \<notin> ROSETTES)"
  using legal_move_cases [OF lm m own opp]
  by (auto simp: landing_allowed ROSETTES_def split: if_splits)


lemma execute_move_result:
  assumes ap: "apply_move (game u) (current_player (game u)) (pi, d, e, c) = (Inr e, g1)"
    and w: "is_winner g1 (current_player (game u)) = Inr w"
    and q: "py_get QUIZ_QUESTIONS (quiz_question_index u) = Inr q"
    and nxt: "nxt = (if w then game_over
                     else if e \<and> d \<in> QUIZ_TRIGGER_ROSETTES then await_quiz else await_roll)"
  shows "\<exists>u1. execute_move u (pi, d, e, c) = Inr u1
           \<and> game u1 = (if \<not> w \<and> \<not> e then g1\<lparr>current_player := 1 - current_player (game u)\<rparr>
                         else g1)
           \<and> (if c \<noteq> None
                then state u1 = capture_anim \<and> capture_anim_frames u1 = 90
                     \<and> post_capture_state u1 = Some nxt
                else state u1 = nxt)
           \<and> (nxt = await_quiz \<longrightarrow>
                 quiz_player u1 = Some (current_player (game u))
                 \<and> quiz_correct_option u1 = Some q \<and> quiz_current u1 = Some q)"
  using ap w q nxt
  by (cases w; cases e; cases "d \<in> QUIZ_TRIGGER_ROSETTES"; cases c)
     (simp_all add: execute_move_def Let_def CAPTURE_ANIM_FRAMES_def)

lemma quiz_answer_result:
  assumes "state u = await_quiz" and "quiz_current u = Some q" and "quiz_player u = Some qp"
    and "quiz_correct_option u = Some q" and "30 \<le> n"
  shows "state ((tick ^^ n) (click_await_quiz u (c\<lparr>on_answer := Some a\<rparr>))) = await_roll
       \<and> current_player (game ((tick ^^ n) (click_await_quiz u (c\<lparr>on_answer := Some a\<rparr>))))
           = (if a = q then qp else 1 - qp)"
proof -
  let ?u' = "click_await_quiz u (c\<lparr>on_answer := Some a\<rparr>)"
  from assms have st: "state ?u' = quiz_feedback" "quiz_feedback_frames ?u' = 30"
    and cp: "current_player (game ?u') = (if a = q then qp else 1 - qp)"
    by (simp_all add: click_await_quiz_def Let_def)
  from assms(5) have "quiz_feedback_frames ?u' \<le> int n" "0 < n" by (simp_all add: st)
  from ticks_feedback [OF st(1) this] cp show ?thesis by (simp add: game_ticks)
qed


lemma QUIZ_TRIGGER_subset: "d \<in> QUIZ_TRIGGER_ROSETTES \<Longrightarrow> d \<in> ROSETTES"
  by (auto simp: QUIZ_TRIGGER_ROSETTES_def ROSETTES_def)

lemma find_filter: "find Q (filter R xs) = find (\<lambda>x. R x \<and> Q x) xs"
  by (induction xs) auto

lemma find_None_set: "find P xs = None \<longleftrightarrow> (\<forall>x \<in> set xs. \<not> P x)"
  by (induction xs) auto

lemma find_Some_split:
  "find P xs = Some m \<Longrightarrow>
     \<exists>pre post. xs = pre @ m # post \<and> P m \<and> (\<forall>x \<in> set pre. \<not> P x)"
proof (induction xs)
  case Nil
  then show ?case by simp
next
  case (Cons x xs)
  show ?case
  proof (cases "P x")
    case True
    with Cons.prems have "x = m" by simp
    with True have "x # xs = [] @ m # xs \<and> P m \<and> (\<forall>y \<in> set []. \<not> P y)" by simp
    then show ?thesis by blast
  next
    case False
    with Cons obtain pre post where "xs = pre @ m # post" "P m" "\<forall>y \<in> set pre. \<not> P y"
      by auto
    with False have "x # xs = (x # pre) @ m # post \<and> P m \<and> (\<forall>y \<in> set (x # pre). \<not> P y)"
      by simp
    then show ?thesis by blast
  qed
qed

lemma execute_move_positions:
  "execute_move u m = Inr u' \<Longrightarrow>
     positions (game u') = positions (snd (apply_move (game u) (current_player (game u)) m))"
  by (auto simp: execute_move_def Let_def split: prod.splits sum.splits if_splits)

text \<open>A click on the entry square during the first turn, evaluated.\<close>

lemma example_click:
  "on_click
     \<lparr>game = new_game, rng_state = sconst 0, state = await_dest, roll_value = Some 4,
      legal_moves_var = [(None, 3, True, None)], selected_piece = None,
      quiz_question_index = 0, quiz_current = None, quiz_player = None,
      quiz_correct_option = None, quiz_last_choice = None, quiz_feedback_frames = 0,
      capture_square = None, capture_anim_frames = 0, post_capture_state = None\<rparr>
     \<lparr>on_roll_btn = False, on_cont_btn = False, on_square = Some (3, Some 0),
      on_rack = False, on_answer = None\<rparr>
   = Inr \<lparr>game = \<lparr>positions = [[3, - 1, - 1, - 1, - 1, - 1, - 1],
                                   [- 1, - 1, - 1, - 1, - 1, - 1, - 1]], current_player = 0\<rparr>,
      rng_state = sconst 0, state = await_quiz, roll_value = Some 4,
      legal_moves_var = [], selected_piece = None,
      quiz_question_index = 0, quiz_current = Some 1, quiz_player = Some 0,
      quiz_correct_option = Some 1, quiz_last_choice = None, quiz_feedback_frames = 0,
      capture_square = None, capture_anim_frames = 0, post_capture_state = None\<rparr>"
proof -
  let ?g1 = "\<lparr>positions = [[3, - 1, - 1, - 1, - 1, - 1, - 1],
                             [- 1, - 1, - 1, - 1, - 1, - 1, - 1]], current_player = 0\<rparr>"
  have cp: "current_player new_game = 0" by (simp add: new_game_def)
  have ap: "apply_move new_game 0 (None, 3, True, None) = (Inr True, ?g1)" by code_simp
  have w: "is_winner ?g1 0 = Inr False" by code_simp
  have q: "py_get QUIZ_QUESTIONS 0 = Inr 1" by code_simp
  show ?thesis
    by (simp add: on_click_def click_await_dest_def chosen_move_def moves_for_piece_def
        execute_move_def cp ap w q QUIZ_TRIGGER_ROSETTES_def Let_def)
qed


section \<open>The claims\<close>



text \<open>
  C9. \<open>roll_dice\<close> returns the sum of four draws of \<open>choice([0, 1])\<close>, each 0 or 1 and
  each taken from the generator where the previous one left it (so the sum of the parities
  of its next four raw draws); the result is between 0 and 4; and \<open>legal_moves\<close> with
  roll 0 returns the empty list for every game and player.
\<close>

theorem roll_dice_range:
  "(\<exists>b0 b1 b2 b3 r1 r2 r3 r4.
       choice [0, 1] r = (Inr b0, r1) \<and> choice [0, 1] r1 = (Inr b1, r2)
     \<and> choice [0, 1] r2 = (Inr b2, r3) \<and> choice [0, 1] r3 = (Inr b3, r4)
     \<and> b0 \<in> {0, 1} \<and> b1 \<in> {0, 1} \<and> b2 \<in> {0, 1} \<and> b3 \<in> {0, 1}
     \<and> roll_dice r = (Inr (b0 + b1 + b2 + b3), r4))
   \<and> roll_dice r =
       (Inr (int (r !! 0 mod 2) + int (r !! 1 mod 2) + int (r !! 2 mod 2) + int (r !! 3 mod 2)),
        sdrop 4 r)
   \<and> (\<exists>v r'. roll_dice r = (Inr v, r') \<and> 0 \<le> v \<and> v \<le> 4)
   \<and> legal_moves g player 0 = Inr []"
proof (intro conjI)
  show "\<exists>b0 b1 b2 b3 r1 r2 r3 r4.
       choice [0, 1] r = (Inr b0, r1) \<and> choice [0, 1] r1 = (Inr b1, r2)
     \<and> choice [0, 1] r2 = (Inr b2, r3) \<and> choice [0, 1] r3 = (Inr b3, r4)
     \<and> b0 \<in> {0, 1} \<and> b1 \<in> {0, 1} \<and> b2 \<in> {0, 1} \<and> b3 \<in> {0, 1}
     \<and> roll_dice r = (Inr (b0 + b1 + b2 + b3), r4)"
    by (simp add: roll_dice_def numeral_eq_Suc choice01)
  show "roll_dice r =
       (Inr (int (r !! 0 mod 2) + int (r !! 1 mod 2) + int (r !! 2 mod 2) + int (r !! 3 mod 2)),
        sdrop 4 r)" by (rule roll_dice_draws)
  show "\<exists>v r'. roll_dice r = (Inr v, r') \<and> 0 \<le> v \<and> v \<le> 4"
    using sum_choices_range [of 4 r 0] by (simp add: roll_dice_def)
  show "legal_moves g player 0 = Inr []" by (simp add: legal_moves_def)
qed

text \<open>
  C5. No move returned by \<open>legal_moves\<close> has a destination above 13 other than 14, and no
  returned destination is an on-track slot \<open>0..13\<close> that one of the mover's pieces holds.
\<close>

theorem legal_moves_destinations:
  assumes "legal_moves g player roll = Inr ms" and "(piece, d, extra, cap) \<in> set ms"
    and "py_get (positions g) player = Inr own"
  shows "(d \<le> 13 \<or> d = 14) \<and> \<not> (0 \<le> d \<and> d \<le> 13 \<and> d \<in> set own)"
proof -
  from assms(1,2) have "ms \<noteq> []" by auto
  from legal_moves_Inr [OF assms(1) this] assms(3)
  obtain opp where opp: "py_get (positions g) (1 - player) = Inr opp" by auto
  from legal_move_cases [OF assms(1,2,3) opp] show ?thesis
    by (auto simp: landing_allowed)
qed

theorem legal_moves_destinations_witness:
  "legal_moves \<lparr>positions = [[13, 5, 5, - 1], [7, 9, - 1, 14]], current_player = 0\<rparr> 0 1
     = Inr [(Some 0, 14, False, None), (Some 1, 6, False, None), (Some 2, 6, False, None),
            (None, 0, False, None)]
   \<and> ((6::int) \<le> 13 \<or> (6::int) = 14)
   \<and> \<not> ((0::int) \<le> 6 \<and> (6::int) \<le> 13 \<and> 6 \<in> set [13, 5, 5, - 1 :: int])"
proof -
  let ?g = "\<lparr>positions = [[13, 5, 5, - 1], [7, 9, - 1, 14]], current_player = 0\<rparr>"
  have lm: "legal_moves ?g 0 1
     = Inr [(Some 0, 14, False, None), (Some 1, 6, False, None), (Some 2, 6, False, None),
            (None, 0, False, None)]" by code_simp
  have m: "(Some 1, 6, False, None) \<in> set [(Some 0, 14, False, None),
     (Some 1, 6, False, None), (Some 2, 6, False, None), (None, 0 :: int, False, None :: int option)]"
    by simp
  have own: "py_get (positions ?g) 0 = Inr [13, 5, 5, - 1]" by code_simp
  from legal_moves_destinations [OF lm m own] lm show ?thesis by simp
qed

text \<open>
  C6. For a nonzero roll the returned list is the moves of on-track pieces followed by the
  entry part; the entry part is the single move \<open>(None, roll - 1, roll - 1 \<in> ROSETTES, c)\<close>
  when the player has a piece at \<open>-1\<close>, \<open>roll - 1\<close> is in \<open>0..13\<close> and \<open>landing_info\<close>
  allows the slot (returning the capture \<open>c\<close>), and empty otherwise.
\<close>

theorem entry_move_last:
  assumes r: "roll \<noteq> 0"
    and own: "py_get (positions g) player = Inr own"
    and opp: "py_get (positions g) (1 - player) = Inr opp"
  shows "\<exists>pm em. legal_moves g player roll = Inr (pm @ em)
           \<and> (\<forall>m \<in> set pm. fst m \<noteq> None)
           \<and> em = (if - 1 \<in> set own \<and> 0 \<le> roll - 1 \<and> roll - 1 \<le> 13 then
                     (case landing_info (track_set own) (track_set opp) (opp_index_by_pos opp)
                             (roll - 1) of
                        Inr (True, c) \<Rightarrow> [(None, roll - 1, roll - 1 \<in> ROSETTES, c)]
                      | _ \<Rightarrow> [])
                   else [])"
proof -
  let ?li = "landing_info (track_set own) (track_set opp) (opp_index_by_pos opp)"
  let ?pm = "concat (map (piece_moves ?li roll) (enumerate 0 own))"
  have "legal_moves g player roll = Inr (?pm @ entry_moves ?li own roll)"
    by (rule legal_moves_eq [OF r own opp])
  moreover have "\<forall>m \<in> set ?pm. fst m \<noteq> None"
  proof
    fix m assume "m \<in> set ?pm"
    then obtain i where i: "m \<in> set (piece_moves ?li roll (i, own ! i))"
      unfolding in_piece_moves_enumerate by blast
    obtain p d e c where m: "m = (p, d, e, c)" by (cases m)
    from i show "fst m \<noteq> None" unfolding m by (simp add: in_piece_moves)
  qed
  moreover have "entry_moves ?li own roll =
     (if - 1 \<in> set own \<and> 0 \<le> roll - 1 \<and> roll - 1 \<le> 13 then
        (case ?li (roll - 1) of
           Inr (True, c) \<Rightarrow> [(None, roll - 1, roll - 1 \<in> ROSETTES, c)]
         | _ \<Rightarrow> [])
      else [])"
    by (simp add: entry_moves_def TRACK_LEN_def)
  ultimately show ?thesis by blast
qed

theorem entry_move_last_witness:
  "\<exists>pm. legal_moves \<lparr>positions = [[13, 5, 5, - 1], [7, 9, - 1, 14]], current_player = 0\<rparr> 0 1
          = Inr (pm @ [(None, 0, False, None)])
        \<and> list_all (\<lambda>m. fst m \<noteq> None) pm"
proof -
  let ?g = "\<lparr>positions = [[13, 5, 5, - 1], [7, 9, - 1, 14]], current_player = 0\<rparr>"
  have own: "py_get (positions ?g) 0 = Inr [13, 5, 5, - 1]" by code_simp
  have opp: "py_get (positions ?g) (1 - 0) = Inr [7, 9, - 1, 14]" by code_simp
  have li: "landing_info (track_set [13, 5, 5, - 1]) (track_set [7, 9, - 1, 14])
              (opp_index_by_pos [7, 9, - 1, 14]) 0 = Inr (True, None)" by code_simp
  have r: "(1::int) \<noteq> 0" by simp
  from entry_move_last [OF r own opp] show ?thesis
    by (simp add: li ROSETTES_def list_all_iff)
qed

text \<open>
  C7. Whenever an on-track piece \<open>i\<close> stands exactly \<open>roll\<close> short of 14, the returned list
  contains its bear-off move \<open>(i, 14, False, None)\<close>, and every returned move to 14 carries
  no bonus turn and no capture.
\<close>

theorem bear_off_offered:
  assumes own: "py_get (positions g) player = Inr own"
    and opp: "py_get (positions g) (1 - player) = Inr opp"
    and i: "i < length own" "0 \<le> own ! i" "own ! i \<le> 13" "own ! i + roll = 14"
  shows "\<exists>ms. legal_moves g player roll = Inr ms
           \<and> (Some (int i), 14, False, None) \<in> set ms
           \<and> (\<forall>m \<in> set ms. fst (snd m) = 14 \<longrightarrow> \<not> fst (snd (snd m)) \<and> snd (snd (snd m)) = None)"
proof -
  from i have r: "roll \<noteq> 0" by auto
  let ?li = "landing_info (track_set own) (track_set opp) (opp_index_by_pos opp)"
  let ?ms = "concat (map (piece_moves ?li roll) (enumerate 0 own)) @ entry_moves ?li own roll"
  have lm: "legal_moves g player roll = Inr ?ms" by (rule legal_moves_eq [OF r own opp])
  have "(Some (int i), 14, False, None) \<in> set (piece_moves ?li roll (i, own ! i))"
    using i by (simp add: in_piece_moves)
  with i(1) have a: "(Some (int i), 14, False, None) \<in> set ?ms"
    by (auto simp: bex_enumerate)
  have b: "\<not> fst (snd (snd m)) \<and> snd (snd (snd m)) = None"
    if "m \<in> set ?ms" "fst (snd m) = 14" for m
  proof -
    obtain p d e c where m: "m = (p, d, e, c)" by (cases m)
    from legal_move_cases [OF lm that(1) [unfolded m] own opp] that(2) show ?thesis
      by (auto simp: m)
  qed
  from lm a b show ?thesis by blast
qed

theorem bear_off_offered_witness:
  "\<exists>ms. legal_moves \<lparr>positions = [[13, 5, 5, - 1], [7, 9, - 1, 14]], current_player = 0\<rparr> 0 1
          = Inr ms
        \<and> (Some 0, 14, False, None) \<in> set ms"
proof -
  let ?g = "\<lparr>positions = [[13, 5, 5, - 1], [7, 9, - 1, 14]], current_player = 0\<rparr>"
  have own: "py_get (positions ?g) 0 = Inr [13, 5, 5, - 1]" by code_simp
  have opp: "py_get (positions ?g) (1 - 0) = Inr [7, 9, - 1, 14]" by code_simp
  from bear_off_offered [OF own opp, of 0 1] show ?thesis by auto
qed

text \<open>
  C3. In every game reachable from the initial one by legal moves there are two rows of
  seven positions, each between \<open>-1\<close> and 14; no row holds the same on-track slot
  \<open>0..13\<close> twice; and no shared slot \<open>4..11\<close> is held by both rows.
\<close>

theorem reachable_invariant:
  assumes "reachable g"
  shows "length (positions g) = 2
       \<and> (\<forall>row \<in> set (positions g). length row = 7 \<and> (\<forall>x \<in> set row. - 1 \<le> x \<and> x \<le> 14)
            \<and> (\<forall>i<length row. \<forall>j<length row.
                  i \<noteq> j \<and> 0 \<le> row ! i \<and> row ! i \<le> 13 \<longrightarrow> row ! i \<noteq> row ! j))
       \<and> (\<forall>d. 4 \<le> d \<and> d \<le> 11 \<longrightarrow>
             \<not> (d \<in> set (positions g ! 0) \<and> d \<in> set (positions g ! 1)))"
proof -
  from reachable_rows [OF assms] obtain r0 r1 where g: "positions g = [r0, r1]"
    and inv: "rows_inv r0 r1" by blast
  from inv have "length r0 = 7" "length r1 = 7" "in_range r0" "in_range r1" "no_stack r0"
    "no_stack r1" "exclusive r0 r1" by (simp_all add: rows_inv_def N_PIECES_def)
  then show ?thesis unfolding g in_range_def no_stack_def exclusive_def by simp
qed


theorem reachable_invariant_witness:
  "reachable \<lparr>positions = [[5, - 1, - 1, - 1, - 1, - 1, - 1], [- 1, - 1, - 1, - 1, - 1, - 1, - 1]],
              current_player = 0\<rparr>
   \<and> length (positions \<lparr>positions = [[5, - 1, - 1, - 1, - 1, - 1, - 1],
         [- 1, - 1, - 1, - 1, - 1, - 1, - 1]], current_player = 0\<rparr>) = 2
   \<and> \<not> (5 \<in> set (positions \<lparr>positions = [[5, - 1, - 1, - 1, - 1, - 1, - 1],
              [- 1, - 1, - 1, - 1, - 1, - 1, - 1]], current_player = 0\<rparr> ! 0)
        \<and> 5 \<in> set (positions \<lparr>positions = [[5, - 1, - 1, - 1, - 1, - 1, - 1],
              [- 1, - 1, - 1, - 1, - 1, - 1, - 1]], current_player = 0\<rparr> ! 1))"
  using reachable_invariant [OF reachable_example] reachable_example by simp

text \<open>
  C8. In a reachable game \<open>is_winner\<close> returns whether all seven pieces of the player stand
  at 14; and when a legal move is applied, a position that becomes 14 is the moved piece of
  the mover, and the move's destination is 14.
\<close>

theorem winner_and_bear_off:
  assumes reach: "reachable g" and pl: "player = 0 \<or> player = 1"
  shows "is_winner g player = Inr (\<forall>k<7. positions g ! nat player ! k = 14)
       \<and> (legal_moves g player roll = Inr ms \<and> m \<in> set ms \<and> apply_move g player m = (r, g')
            \<and> q < 2 \<and> k < 7 \<and> positions g' ! q ! k = 14 \<and> positions g ! q ! k \<noteq> 14
          \<longrightarrow> fst (snd m) = 14 \<and> q = nat player \<and> fst m = Some (int k))"
proof
  from reachable_rows [OF reach] obtain r0 r1 where g: "positions g = [r0, r1]"
    and inv: "rows_inv r0 r1" by blast
  from inv have len: "length r0 = 7" "length r1 = 7" by (simp_all add: rows_inv_def N_PIECES_def)
  have all7: "list_all (\<lambda>pos. pos = 14) row \<longleftrightarrow> (\<forall>k<7. row ! k = 14)"
    if "length row = 7" for row :: "int list"
    using that by (simp add: list_all_length)
  from pl show "is_winner g player = Inr (\<forall>k<7. positions g ! nat player ! k = 14)"
    using py_get_two [OF g] len
    by (auto simp: is_winner_def g TRACK_LEN_def all7)
  show "legal_moves g player roll = Inr ms \<and> m \<in> set ms \<and> apply_move g player m = (r, g')
            \<and> q < 2 \<and> k < 7 \<and> positions g' ! q ! k = 14 \<and> positions g ! q ! k \<noteq> 14
          \<longrightarrow> fst (snd m) = 14 \<and> q = nat player \<and> fst m = Some (int k)"
  proof
    assume h: "legal_moves g player roll = Inr ms \<and> m \<in> set ms
      \<and> apply_move g player m = (r, g')
      \<and> q < 2 \<and> k < 7 \<and> positions g' ! q ! k = 14 \<and> positions g ! q ! k \<noteq> 14"
    obtain p d e c where mv: "m = (p, d, e, c)" by (cases m)
    from h have lm: "legal_moves g player roll = Inr ms" and m: "(p, d, e, c) \<in> set ms"
      by (simp_all add: mv)
    from apply_legal_move_result [OF g pl lm m] h obtain j where
      g': "positions g' = (if player = 0
                 then [r0[j := d], case c of None \<Rightarrow> r1 | Some k \<Rightarrow> r1[nat k := - 1]]
                 else [case c of None \<Rightarrow> r0 | Some k \<Rightarrow> r0[nat k := - 1], r1[j := d]])"
      and pj: "p = None \<or> p = Some (int j)" and d14: "d = 14 \<longrightarrow> p \<noteq> None"
      by (auto simp: mv)
    from h have "q = 0 \<or> q = 1" by auto
    then show "fst (snd m) = 14 \<and> q = nat player \<and> fst m = Some (int k)"
    proof
      assume q: "q = 0"
      show ?thesis
      proof (cases "player = 0")
        case True
        with h g g' q len have "r0[j := d] ! k = 14" "r0 ! k \<noteq> 14" "k < length r0" by auto
        then have "k = j \<and> d = 14" using nth_update_changed [of k r0 j d] by auto
        with pj d14 True q show ?thesis by (auto simp: mv)
      next
        case False
        with h g g' q len captured_not_14 [of k r0 c] show ?thesis by auto
      qed
    next
      assume q: "q = 1"
      show ?thesis
      proof (cases "player = 0")
        case True
        with h g g' q len captured_not_14 [of k r1 c] show ?thesis by auto
      next
        case False
        with pl have p1: "player = 1" by simp
        with h g g' q len have "r1[j := d] ! k = 14" "r1 ! k \<noteq> 14" "k < length r1" by auto
        then have "k = j \<and> d = 14" using nth_update_changed [of k r1 j d] by auto
        with pj d14 p1 q show ?thesis by (auto simp: mv)
      qed
    qed
  qed
qed

theorem winner_and_bear_off_witness:
  "reachable \<lparr>positions = [[11, - 1, - 1, - 1, - 1, - 1, - 1], [- 1, - 1, - 1, - 1, - 1, - 1, - 1]],
              current_player = 0\<rparr>
   \<and> is_winner \<lparr>positions = [[11, - 1, - 1, - 1, - 1, - 1, - 1],
         [- 1, - 1, - 1, - 1, - 1, - 1, - 1]], current_player = 0\<rparr> 0 = Inr False
   \<and> apply_move \<lparr>positions = [[11, - 1, - 1, - 1, - 1, - 1, - 1],
         [- 1, - 1, - 1, - 1, - 1, - 1, - 1]], current_player = 0\<rparr> 0 (Some 0, 14, False, None)
       = (Inr False, \<lparr>positions = [[14, - 1, - 1, - 1, - 1, - 1, - 1],
         [- 1, - 1, - 1, - 1, - 1, - 1, - 1]], current_player = 0\<rparr>)
   \<and> fst (snd (Some (0::int), 14::int, False, None :: int option)) = 14
   \<and> fst (Some (0::int), 14::int, False, None :: int option) = Some (int 0)"
proof -
  let ?g = "\<lparr>positions = [[11, - 1, - 1, - 1, - 1, - 1, - 1], [- 1, - 1, - 1, - 1, - 1, - 1, - 1]],
              current_player = 0\<rparr>"
  let ?g' = "\<lparr>positions = [[14, - 1, - 1, - 1, - 1, - 1, - 1], [- 1, - 1, - 1, - 1, - 1, - 1, - 1]],
              current_player = 0\<rparr>"
  let ?m = "(Some (0::int), 14::int, False, None :: int option)"
  have p: "(0::int) = 0 \<or> (0::int) = 1" by simp
  have lm: "legal_moves ?g 0 3 = Inr [?m, (None, 2, False, None)]" by code_simp
  have ap: "apply_move ?g 0 ?m = (Inr False, ?g')" by code_simp
  have w: "is_winner ?g 0 = Inr False" by code_simp
  from winner_and_bear_off [OF reachable_example2 p, of 3 "[?m, (None, 2, False, None)]" ?m
      "Inr False" ?g' 0 0] lm ap w reachable_example2
  show ?thesis by simp
qed

text \<open>
  C10. Given an entry move (piece index \<open>None\<close>) for a player with a piece off the board
  (and a capture reference that is absent or a valid opponent index), \<open>apply_move\<close> writes
  the destination at the lowest index \<open>j\<close> whose position is \<open>-1\<close>.
\<close>

theorem entry_takes_first_off_board:
  assumes len: "length (positions g) = 2" and pl: "player = 0 \<or> player = 1"
    and own: "py_get (positions g) player = Inr own"
    and opp: "py_get (positions g) (1 - player) = Inr opp"
    and off: "- 1 \<in> set own"
    and cap: "captured_idx = None \<or> (\<exists>k<length opp. captured_idx = Some (int k))"
  shows "\<exists>j g'. apply_move g player (None, newpos, extra, captured_idx) = (Inr extra, g')
           \<and> j < length own \<and> own ! j = - 1 \<and> (\<forall>i<j. own ! i \<noteq> - 1)
           \<and> py_get (positions g') player = Inr (own[j := newpos])"
proof -
  from len obtain r0 r1 where g: "positions g = [r0, r1]"
    by (cases "positions g"; cases "tl (positions g)") auto
  from index_of_mem [OF off] obtain j where j: "index_of own (- 1) = Some j" by blast
  note js = index_of_Some [OF j]
  from pl show ?thesis
  proof
    assume p0: "player = 0"
    with own opp py_get_two [OF g] have o: "own = r0" "opp = r1" by simp_all
    from apply_move_entry0 [OF g j [unfolded o] cap [unfolded o]] js show ?thesis
      unfolding p0 o by (auto simp: py_get_def norm_index_def)
  next
    assume p1: "player = 1"
    with own opp py_get_two [OF g] have o: "own = r1" "opp = r0" by simp_all
    from apply_move_entry1 [OF g j [unfolded o] cap [unfolded o]] js show ?thesis
      unfolding p1 o by (auto simp: py_get_def norm_index_def)
  qed
qed

theorem entry_takes_first_off_board_witness:
  "\<exists>j g'. apply_move \<lparr>positions = [[13, 5, - 1, - 1], [7, 9, - 1, 14]], current_player = 0\<rparr> 0
             (None, 1, False, None) = (Inr False, g')
         \<and> j < length [13, 5, - 1, - 1 :: int] \<and> [13, 5, - 1, - 1 :: int] ! j = - 1
         \<and> py_get (positions g') 0 = Inr ([13, 5, - 1, - 1][j := 1])"
proof -
  let ?g = "\<lparr>positions = [[13, 5, - 1, - 1], [7, 9, - 1, 14]], current_player = 0\<rparr>"
  have len: "length (positions ?g) = 2" by simp
  have p: "(0::int) = 0 \<or> (0::int) = 1" by simp
  have own: "py_get (positions ?g) 0 = Inr [13, 5, - 1, - 1]" by code_simp
  have opp: "py_get (positions ?g) (1 - 0) = Inr [7, 9, - 1, 14]" by code_simp
  have off: "- 1 \<in> set [13, 5, - 1, - 1 :: int]" by simp
  have cap: "(None :: int option) = None \<or> (\<exists>k<length [7, 9, - 1, 14 :: int]. None = Some (int k))"
    by simp
  from entry_takes_first_off_board [OF len p own opp off cap, of 1 False] show ?thesis
    by blast
qed


text \<open>
  C2. In a reachable game, when the \<open>await_dest\<close> handler applies the chosen legal move and
  the mover has not won: a quiz is started exactly when the landing slot is 3 or 7; at the
  next \<open>await_roll\<close> (after the animation frames, and after the answer \<open>a\<close> when a quiz
  was started) the player to move is the mover if and only if the landing slot is a rosette
  and either it is not a quiz rosette (slot 13) or the answer is the correct option;
  otherwise it is the other player.
\<close>

theorem turn_handoff:
  assumes reach: "reachable (game u)"
    and st: "state u = await_dest"
    and lm: "legal_moves (game u) (current_player (game u)) roll = Inr (legal_moves_var u)"
    and qi: "0 \<le> quiz_question_index u" "quiz_question_index u < int (length QUIZ_QUESTIONS)"
    and ch: "chosen_move u ck = Some m"
    and n: "90 \<le> n"
  shows "\<exists>u1. on_click u ck = Inr u1 \<and>
    (if is_winner (game u1) (current_player (game u)) = Inr True
     then state ((tick ^^ n) u1) = game_over
     else
       (let u2 = (tick ^^ n) u1;
            verdict = (Some a = quiz_correct_option u2);
            u3 = (if state u2 = await_quiz then
                    (case on_click u2 (ca\<lparr>on_answer := Some a\<rparr>) of
                       Inr v \<Rightarrow> (tick ^^ n) v
                     | Inl err \<Rightarrow> u2)
                  else u2)
        in (state u2 = await_quiz \<longleftrightarrow> fst (snd m) \<in> QUIZ_TRIGGER_ROSETTES)
           \<and> state u3 = await_roll
           \<and> current_player (game u3) =
               (if fst (snd m) \<in> ROSETTES \<and> (fst (snd m) \<notin> QUIZ_TRIGGER_ROSETTES \<or> verdict)
                then current_player (game u) else 1 - current_player (game u))))"
proof -
  let ?p = "current_player (game u)"
  from reachable_rows [OF reach] obtain r0 r1 where g: "positions (game u) = [r0, r1]"
    and pl: "?p = 0 \<or> ?p = 1" by blast
  obtain pi d e c where mv: "m = (pi, d, e, c)" by (cases m)
  from chosen_move_legal [OF ch] have m: "(pi, d, e, c) \<in> set (legal_moves_var u)"
    by (simp add: mv)
  from pl py_get_two [OF g] obtain own opp where own: "py_get (positions (game u)) ?p = Inr own"
    and opp: "py_get (positions (game u)) (1 - ?p) = Inr opp" by auto
  from legal_move_bonus [OF lm m own opp]
  have bonus: "e \<longleftrightarrow> d \<in> ROSETTES" and nocap: "c \<noteq> None \<longrightarrow> d \<notin> ROSETTES" by simp_all
  from apply_legal_move_result [OF g pl lm m] obtain g1 x y where
    ap: "apply_move (game u) ?p (pi, d, e, c) = (Inr e, g1)" and g1: "positions g1 = [x, y]"
    by (cases "?p = 0") auto
  from pl py_get_two [OF g1] obtain w where w: "is_winner g1 ?p = Inr w"
    by (auto simp: is_winner_def)
  from qi obtain q where q: "py_get QUIZ_QUESTIONS (quiz_question_index u) = Inr q"
    by (auto simp: py_get_def norm_index_def)
  define nxt where "nxt = (if w then game_over
                     else if e \<and> d \<in> QUIZ_TRIGGER_ROSETTES then await_quiz else await_roll)"
  from execute_move_result [OF ap w q nxt_def] obtain u1 where
    ex: "execute_move u (pi, d, e, c) = Inr u1"
    and gu1: "game u1 = (if \<not> w \<and> \<not> e then g1\<lparr>current_player := 1 - ?p\<rparr> else g1)"
    and su1: "if c \<noteq> None
                then state u1 = capture_anim \<and> capture_anim_frames u1 = 90
                     \<and> post_capture_state u1 = Some nxt
                else state u1 = nxt"
    and qu1: "nxt = await_quiz \<longrightarrow>
                 quiz_player u1 = Some ?p
                 \<and> quiz_correct_option u1 = Some q \<and> quiz_current u1 = Some q"
    by blast
  have oc: "on_click u ck = Inr u1"
    using st ch ex by (simp add: on_click_def click_await_dest_def mv)
  have idle: "nxt \<noteq> capture_anim" "nxt \<noteq> quiz_feedback" by (simp_all add: nxt_def)
  have s2: "state ((tick ^^ n) u1) = nxt"
  proof (cases "c = None")
    case True
    with su1 idle show ?thesis by (simp add: ticks_idle)
  next
    case False
    with su1 have "state u1 = capture_anim" "capture_anim_frames u1 \<le> int n" "0 < n"
      "post_capture_state u1 = Some nxt" using n by auto
    from ticks_capture [OF this idle] show ?thesis .
  qed
  have win: "is_winner (game u1) ?p = Inr w"
    using w pl py_get_two [OF g1] by (auto simp: gu1 is_winner_def py_get_def norm_index_def g1)
  show ?thesis
  proof (cases w)
    case True
    with oc s2 win show ?thesis by (simp add: nxt_def)
  next
    case False
    note nw = this
    show ?thesis
    proof (cases "d \<in> QUIZ_TRIGGER_ROSETTES")
      case True
      with bonus nw have nq: "nxt = await_quiz" and e: e
        by (simp_all add: nxt_def QUIZ_TRIGGER_subset)
      from True nocap have cn: "c = None" by (auto dest: QUIZ_TRIGGER_subset)
      with su1 nq have "state u1 = await_quiz" by simp
      then have u2: "(tick ^^ n) u1 = u1" by (simp add: ticks_idle)
      from qu1 nq have qs: "quiz_player u1 = Some ?p" "quiz_correct_option u1 = Some q"
        "quiz_current u1 = Some q" by simp_all
      from n have n30: "30 \<le> n" by simp
      note qa = quiz_answer_result [where c = ca and a = a,
          OF \<open>state u1 = await_quiz\<close> qs(3) qs(1) qs(2) n30]
      have oq: "on_click u1 (ca\<lparr>on_answer := Some a\<rparr>)
                  = Inr (click_await_quiz u1 (ca\<lparr>on_answer := Some a\<rparr>))"
        using \<open>state u1 = await_quiz\<close> by (simp add: on_click_def)
      from oc win nw True qa show ?thesis
        by (simp add: u2 oq qs mv Let_def QUIZ_TRIGGER_subset \<open>state u1 = await_quiz\<close>)
    next
      case False
      with nw have nr: "nxt = await_roll" by (simp add: nxt_def)
      from gu1 nw have "current_player (game u1) = (if e then current_player g1 else 1 - ?p)"
        by simp
      moreover from apply_legal_move_result [OF g pl lm m] ap
      have "current_player g1 = ?p" by auto
      ultimately have "current_player (game u1) = (if d \<in> ROSETTES then ?p else 1 - ?p)"
        using bonus by simp
      with oc win nw False s2 nr show ?thesis
        by (simp add: mv Let_def game_ticks)
    qed
  qed
qed

theorem turn_handoff_witness:
  "let U = \<lparr>game = new_game, rng_state = sconst 0, state = await_dest, roll_value = Some 4,
      legal_moves_var = [(None, 3, True, None)], selected_piece = None,
      quiz_question_index = 0, quiz_current = None, quiz_player = None,
      quiz_correct_option = None, quiz_last_choice = None, quiz_feedback_frames = 0,
      capture_square = None, capture_anim_frames = 0, post_capture_state = None\<rparr>;
       CK = \<lparr>on_roll_btn = False, on_cont_btn = False, on_square = Some (3, Some 0),
      on_rack = False, on_answer = None\<rparr>
   in \<exists>u1. on_click U CK = Inr u1
        \<and> state ((tick ^^ 90) u1) = await_quiz
        \<and> state (case on_click ((tick ^^ 90) u1) (CK\<lparr>on_answer := Some 1\<rparr>) of
                    Inr v \<Rightarrow> (tick ^^ 90) v | Inl err \<Rightarrow> (tick ^^ 90) u1) = await_roll
        \<and> current_player (game (case on_click ((tick ^^ 90) u1) (CK\<lparr>on_answer := Some 1\<rparr>) of
                    Inr v \<Rightarrow> (tick ^^ 90) v | Inl err \<Rightarrow> (tick ^^ 90) u1)) = 0
        \<and> current_player (game (case on_click ((tick ^^ 90) u1) (CK\<lparr>on_answer := Some 2\<rparr>) of
                    Inr v \<Rightarrow> (tick ^^ 90) v | Inl err \<Rightarrow> (tick ^^ 90) u1)) = 1"
proof -
  let ?U = "\<lparr>game = new_game, rng_state = sconst 0, state = await_dest, roll_value = Some 4,
      legal_moves_var = [(None, 3, True, None)], selected_piece = None,
      quiz_question_index = 0, quiz_current = None, quiz_player = None,
      quiz_correct_option = None, quiz_last_choice = None, quiz_feedback_frames = 0,
      capture_square = None, capture_anim_frames = 0, post_capture_state = None\<rparr>"
  let ?CK = "\<lparr>on_roll_btn = False, on_cont_btn = False, on_square = Some (3, Some 0),
      on_rack = False, on_answer = None\<rparr>"
  let ?g1 = "\<lparr>positions = [[3, - 1, - 1, - 1, - 1, - 1, - 1],
                             [- 1, - 1, - 1, - 1, - 1, - 1, - 1]], current_player = 0\<rparr>"
  let ?U1 = "\<lparr>game = ?g1,
      rng_state = sconst 0, state = await_quiz, roll_value = Some 4,
      legal_moves_var = [], selected_piece = None,
      quiz_question_index = 0, quiz_current = Some 1, quiz_player = Some 0,
      quiz_correct_option = Some 1, quiz_last_choice = None, quiz_feedback_frames = 0,
      capture_square = None, capture_anim_frames = 0, post_capture_state = None\<rparr>"
  have cp: "current_player new_game = 0" by (simp add: new_game_def)
  have reach: "reachable (game ?U)" by (simp add: reachable.init)
  have st: "state ?U = await_dest" by simp
  have lm: "legal_moves (game ?U) (current_player (game ?U)) 4 = Inr (legal_moves_var ?U)"
    unfolding ui.simps by code_simp
  have qi: "0 \<le> quiz_question_index ?U" "quiz_question_index ?U < int (length QUIZ_QUESTIONS)"
    by (simp_all add: QUIZ_QUESTIONS_def)
  have ch: "chosen_move ?U ?CK = Some (None, 3, True, None)"
    by (simp add: chosen_move_def moves_for_piece_def cp)
  have n: "(90::nat) \<le> 90" by simp
  have w: "is_winner ?g1 0 = Inr False" by code_simp
  have t: "(tick ^^ 90) ?U1 = ?U1" by (simp add: ticks_idle)
  note th = turn_handoff [OF reach st lm qi ch n]
  from th [of 1 ?CK] th [of 2 ?CK] show ?thesis
    unfolding Let_def example_click
    by (simp add: cp w t QUIZ_TRIGGER_ROSETTES_def ROSETTES_def)
qed

text \<open>
  C4. As stated the claim fails: \<open>apply_move\<close> checks nothing and raises no error for a
  move outside the legal list, it writes it.
\<close>

theorem apply_move_unchecked_counterexample:
  "legal_moves new_game 0 4 = Inr [(None, 3, True, None)]
   \<and> (Some 0, 9, False, None) \<notin> set [(None, 3, True, None) :: move]
   \<and> apply_move new_game 0 (Some 0, 9, False, None)
       = (Inr False, \<lparr>positions = [[9, - 1, - 1, - 1, - 1, - 1, - 1],
                                      [- 1, - 1, - 1, - 1, - 1, - 1, - 1]],
                        current_player = 0\<rparr>)
   \<and> snd (apply_move new_game 0 (Some 0, 9, False, None)) \<noteq> new_game"
  by code_simp

text \<open>
  C4, amended. The \<open>await_dest\<close> handler keeps unlisted moves out. A click that hits a
  shared square or a square of the current player, when the legal-move list holds a move of
  the selected piece to that square, applies the first such move of the list and no other
  (the rows of the game afterwards are those \<open>apply_move\<close> leaves for that move). Every
  other click (no square, a square of the other player, no listed move of the selected
  piece to the square) applies nothing and raises nothing: the game and the list stay as
  they are and the handler goes back to \<open>await_select\<close>.
\<close>

theorem unlisted_move_not_applied:
  assumes "state u = await_dest"
  shows "case on_square ck of
           None \<Rightarrow> on_click u ck = Inr (u\<lparr>selected_piece := None, state := await_select\<rparr>)
         | Some (pos, owner) \<Rightarrow>
             if (owner = None \<or> owner = Some (current_player (game u)))
                \<and> (\<exists>m \<in> set (legal_moves_var u). fst m = selected_piece u \<and> fst (snd m) = pos)
             then
               \<exists>pre m post. legal_moves_var u = pre @ m # post
                 \<and> fst m = selected_piece u \<and> fst (snd m) = pos
                 \<and> (\<forall>x \<in> set pre. \<not> (fst x = selected_piece u \<and> fst (snd x) = pos))
                 \<and> on_click u ck = execute_move u m
                 \<and> (\<forall>u'. on_click u ck = Inr u' \<longrightarrow>
                       positions (game u') =
                         positions (snd (apply_move (game u) (current_player (game u)) m)))
             else on_click u ck = Inr (u\<lparr>selected_piece := None, state := await_select\<rparr>)"
proof (cases "on_square ck")
  case None
  with assms show ?thesis by (simp add: on_click_def click_await_dest_def chosen_move_def)
next
  case (Some sq)
  obtain pos owner where sq: "sq = (pos, owner)" by (cases sq)
  let ?P = "\<lambda>m. fst m = selected_piece u \<and> fst (snd m) = pos"
  show ?thesis
  proof (cases "(owner = None \<or> owner = Some (current_player (game u)))
                \<and> (\<exists>m \<in> set (legal_moves_var u). ?P m)")
    case True
    then have cm: "chosen_move u ck = find ?P (legal_moves_var u)"
      by (simp add: chosen_move_def Some sq moves_for_piece_def find_filter)
    from True have "find ?P (legal_moves_var u) \<noteq> None" by (simp add: find_None_set)
    then obtain m where m: "find ?P (legal_moves_var u) = Some m" by blast
    from find_Some_split [OF m] obtain pre post where
      sp: "legal_moves_var u = pre @ m # post" "?P m" "\<forall>x \<in> set pre. \<not> ?P x" by blast
    have oc: "on_click u ck = execute_move u m"
      using assms cm m by (simp add: on_click_def click_await_dest_def)
    have "\<forall>u'. on_click u ck = Inr u' \<longrightarrow>
            positions (game u') =
              positions (snd (apply_move (game u) (current_player (game u)) m))"
      unfolding oc by (blast dest: execute_move_positions)
    with sp oc have "\<exists>pre m post. legal_moves_var u = pre @ m # post
                 \<and> fst m = selected_piece u \<and> fst (snd m) = pos
                 \<and> (\<forall>x \<in> set pre. \<not> (fst x = selected_piece u \<and> fst (snd x) = pos))
                 \<and> on_click u ck = execute_move u m
                 \<and> (\<forall>u'. on_click u ck = Inr u' \<longrightarrow>
                       positions (game u') =
                         positions (snd (apply_move (game u) (current_player (game u)) m)))"
      by blast
    with True show ?thesis by (simp add: Some sq)
  next
    case False
    then have "chosen_move u ck = None"
      by (auto simp: chosen_move_def Some sq moves_for_piece_def find_filter find_None_set)
    with assms have rej:
      "on_click u ck = Inr (u\<lparr>selected_piece := None, state := await_select\<rparr>)"
      by (simp add: on_click_def click_await_dest_def)
    show ?thesis unfolding Some sq option.case prod.case if_not_P [OF False] by (fact rej)
  qed
qed

theorem unlisted_move_not_applied_witness:
  "let U = \<lparr>game = \<lparr>positions = [[3, - 1, - 1, - 1, - 1, - 1, - 1],
                                     [3, - 1, - 1, - 1, - 1, - 1, - 1]], current_player = 1\<rparr>,
      rng_state = sconst 0, state = await_dest, roll_value = Some 2,
      legal_moves_var = [(Some 0, 5, False, None), (None, 1, False, None)],
      selected_piece = Some 0,
      quiz_question_index = 0, quiz_current = None, quiz_player = None,
      quiz_correct_option = None, quiz_last_choice = None, quiz_feedback_frames = 0,
      capture_square = None, capture_anim_frames = 0, post_capture_state = None\<rparr>
   in on_click U \<lparr>on_roll_btn = False, on_cont_btn = False, on_square = Some (1, Some 1),
                   on_rack = False, on_answer = None\<rparr>
        = Inr (U\<lparr>selected_piece := None, state := await_select\<rparr>)
      \<and> (\<exists>m. m \<in> set (legal_moves_var U) \<and> fst m = Some 0 \<and> fst (snd m) = 5
             \<and> on_click U \<lparr>on_roll_btn = False, on_cont_btn = False,
                             on_square = Some (5, None), on_rack = False, on_answer = None\<rparr>
                 = execute_move U m)"
proof -
  let ?U = "\<lparr>game = \<lparr>positions = [[3, - 1, - 1, - 1, - 1, - 1, - 1],
                                     [3, - 1, - 1, - 1, - 1, - 1, - 1]], current_player = 1\<rparr>,
      rng_state = sconst 0, state = await_dest, roll_value = Some 2,
      legal_moves_var = [(Some 0, 5, False, None), (None, 1, False, None)],
      selected_piece = Some 0,
      quiz_question_index = 0, quiz_current = None, quiz_player = None,
      quiz_correct_option = None, quiz_last_choice = None, quiz_feedback_frames = 0,
      capture_square = None, capture_anim_frames = 0, post_capture_state = None\<rparr>"
  let ?CK1 = "\<lparr>on_roll_btn = False, on_cont_btn = False, on_square = Some (1, Some 1),
      on_rack = False, on_answer = None\<rparr>"
  let ?CK5 = "\<lparr>on_roll_btn = False, on_cont_btn = False, on_square = Some (5, None),
      on_rack = False, on_answer = None\<rparr>"
  have st: "state ?U = await_dest" by simp
  from unlisted_move_not_applied [OF st, of ?CK1]
  have a: "on_click ?U ?CK1 = Inr (?U\<lparr>selected_piece := None, state := await_select\<rparr>)"
    by simp
  from unlisted_move_not_applied [OF st, of ?CK5]
  obtain pre m post where "legal_moves_var ?U = pre @ m # post" "fst m = Some 0"
    "fst (snd m) = 5" "on_click ?U ?CK5 = execute_move ?U m"
    by auto
  moreover from this(1) have "m \<in> set (legal_moves_var ?U)" by (metis in_set_conv_decomp)
  ultimately have b: "\<exists>m. m \<in> set (legal_moves_var ?U) \<and> fst m = Some 0 \<and> fst (snd m) = 5
             \<and> on_click ?U ?CK5 = execute_move ?U m" by blast
  from a b show ?thesis unfolding Let_def by blast
qed

end
